theory Spec2Isabelle
  imports Main "HOL-Library.Sublist" "HOL-Library.AList" "HOL-Library.Multiset"
begin

section \<open>Values exchanged with the classification oracle\<close>

text \<open>
  \<^verbatim>\<open>json.loads\<close> yields a Python value built from dict, list, str, int, float, bool and
  None.  A float is kept as mantissa and exponent (value \<open>m * 2 ^ e\<close>) or as one of the
  non-numbers that \<^verbatim>\<open>json.loads\<close> also accepts; only its being zero is ever looked at.
  A dict is an association list in insertion order; \<^verbatim>\<open>json.loads\<close> produces distinct keys.
\<close>

datatype pyfloat = Finite int int | Infinity bool | NaN

datatype json =
    JNull
  | JBool bool
  | JInt int
  | JFloat pyfloat
  | JStr string
  | JArr "json list"
  | JObj "(string \<times> json) list"

type_synonym pydict = "(string \<times> json) list"

fun float_is_zero :: "pyfloat \<Rightarrow> bool" where
  "float_is_zero (Finite m e) = (m = 0)"
| "float_is_zero (Infinity s) = False"
| "float_is_zero NaN = False"

text \<open>Python truth value of a JSON value, as tested by \<^verbatim>\<open>not classification["important"]\<close>.\<close>

fun truthy :: "json \<Rightarrow> bool" where
  "truthy JNull = False"
| "truthy (JBool b) = b"
| "truthy (JInt i) = (i \<noteq> 0)"
| "truthy (JFloat f) = (\<not> float_is_zero f)"
| "truthy (JStr s) = (s \<noteq> [])"
| "truthy (JArr xs) = (xs \<noteq> [])"
| "truthy (JObj kvs) = (kvs \<noteq> [])"

text \<open>
  File metadata as built by \<^verbatim>\<open>get_file_metadata\<close>.  The size is carried as the byte count
  \<^verbatim>\<open>st_size\<close> from which the source derives \<^verbatim>\<open>size_mb\<close>; the keys \<^verbatim>\<open>importance\<close> and
  \<^verbatim>\<open>reason\<close> are absent (\<open>None\<close>) until the aggregator attaches them.
\<close>

record file_record =
  path :: string
  size_bytes :: nat
  mtime :: string
  is_dir :: bool
  importance :: "json option"
  reason :: "json option"

section \<open>Configuration and environment of a run\<close>

text \<open>
  The home directory of the operator, the working directory, the configuration constants
  \<^verbatim>\<open>DRY_RUN\<close> (line 19) and \<^verbatim>\<open>OPENAI_API_KEY\<close> (line 17: the value of the environment
  variable, \<open>None\<close> when it is not set), and whether the log file of a thread can be opened
  (\<^verbatim>\<open>logging.FileHandler\<close> in \<^verbatim>\<open>setup_thread_logger\<close> raises \<^verbatim>\<open>OSError\<close> when it cannot).
\<close>

record env =
  userhome :: string
  cwd :: string
  DRY_RUN :: bool
  OPENAI_API_KEY :: "string option"
  thread_log_opens :: "nat \<Rightarrow> bool"

section \<open>Oracle client: \<^verbatim>\<open>classify_file_with_openai\<close>\<close>

text \<open>
  What one attempt of the loop body observes: \<^verbatim>\<open>openai.RateLimitError\<close>, any other
  \<^verbatim>\<open>Exception\<close> raised before the content is parsed (with its text), a
  \<^verbatim>\<open>json.JSONDecodeError\<close> from \<^verbatim>\<open>json.loads\<close> (with its text), or the parsed value.
\<close>

datatype reply =
    RateLimitError
  | OtherException string
  | JSONDecodeError string
  | Loaded json

datatype level = INFO | WARNING | ERROR

text \<open>
  Effects of one invocation, in order: a request to the oracle (tagged with the attempt
  number), a \<^verbatim>\<open>time.sleep\<close> (in milliseconds), a line written to the logger of a thread.
\<close>

datatype event = Request nat | Sleep nat | Logged nat level

definition REQUIRED :: "string list" where
  "REQUIRED = [''important'', ''importance'', ''reason'']"

definition TIERS :: "json list" where
  "TIERS = [JStr ''Low'', JStr ''Medium'', JStr ''High'']"

definition fail_safe :: "string \<Rightarrow> pydict" where
  "fail_safe why =
     [(''important'', JBool True), (''importance'', JStr ''High''), (''reason'', JStr why)]"

text \<open>
  Lines 164 to 171 on a parsed value \<open>result\<close>.  \<open>Inl\<close> is the text of an exception that
  leaves the inner \<^verbatim>\<open>try\<close> (it is no \<^verbatim>\<open>JSONDecodeError\<close>); \<open>Inr\<close> is the returned
  classification together with the level of the line logged.  The membership test
  \<^verbatim>\<open>key in result\<close> is key lookup on a dict, element equality on a list, substring search on
  a str and a \<^verbatim>\<open>TypeError\<close> on every other value; \<^verbatim>\<open>result["importance"]\<close> raises
  \<^verbatim>\<open>TypeError\<close> on a list or a str.
\<close>

fun inspect_result :: "json \<Rightarrow> string + (level \<times> pydict)" where
  "inspect_result (JObj kvs) =
     (if list_all (\<lambda>key. key \<in> set (map fst kvs)) REQUIRED then
        (case map_of kvs ''importance'' of
           None \<Rightarrow> Inl ''KeyError''
         | Some tier \<Rightarrow>
             Inr (INFO, if tier \<notin> set TIERS
                        then AList.update ''importance'' (JStr ''Medium'') kvs
                        else kvs))
      else Inr (WARNING, fail_safe ''Invalid JSON structure''))"
| "inspect_result (JArr xs) =
     (if list_all (\<lambda>key. JStr key \<in> set xs) REQUIRED
      then Inl ''list indices must be integers or slices, not str''
      else Inr (WARNING, fail_safe ''Invalid JSON structure''))"
| "inspect_result (JStr s) =
     (if list_all (\<lambda>key. sublist key s) REQUIRED
      then Inl ''string indices must be integers''
      else Inr (WARNING, fail_safe ''Invalid JSON structure''))"
| "inspect_result v = Inl ''argument is not iterable''"

text \<open>
  The loop \<^verbatim>\<open>for attempt in range(3)\<close> over the attempts still to be made.  \<open>oracle\<close> gives
  what each attempt observes.  Only the rate-limit branch falls through to the
  \<^verbatim>\<open>time.sleep(0.1)\<close> at the end of the body and to the next attempt; every other branch
  returns.
\<close>

fun classify_attempts ::
  "nat \<Rightarrow> (nat \<Rightarrow> reply) \<Rightarrow> nat list \<Rightarrow> event list \<times> pydict" where
  "classify_attempts thread_id oracle [] =
     ([Logged thread_id ERROR], fail_safe ''Failed after retries'')"
| "classify_attempts thread_id oracle (attempt # rest) =
     (case oracle attempt of
        RateLimitError \<Rightarrow>
          (let (evs, c) = classify_attempts thread_id oracle rest
           in (Request attempt # Logged thread_id WARNING # Sleep 5000 # Sleep 100 # evs, c))
      | OtherException e \<Rightarrow>
          ([Request attempt, Logged thread_id ERROR], fail_safe (''API error: '' @ e))
      | JSONDecodeError e \<Rightarrow>
          ([Request attempt, Logged thread_id ERROR], fail_safe (''JSON parse error: '' @ e))
      | Loaded result \<Rightarrow>
          (case inspect_result result of
             Inl e \<Rightarrow>
               ([Request attempt, Logged thread_id ERROR], fail_safe (''API error: '' @ e))
           | Inr (lvl, c) \<Rightarrow> ([Request attempt, Logged thread_id lvl], c)))"

text \<open>
  The function.  Lines 130 and 131 run before the loop and outside every \<^verbatim>\<open>try\<close>:
  \<^verbatim>\<open>setup_thread_logger\<close> raises when the log file of the thread cannot be opened, and
  \<^verbatim>\<open>OpenAI(api_key=OPENAI_API_KEY)\<close> raises when no key is set.  Then the exception leaves the
  function (\<open>None\<close>) and no attempt is made; otherwise the loop runs and its pair is
  returned.
\<close>

definition classify_file_with_openai ::
  "env \<Rightarrow> file_record \<Rightarrow> nat \<Rightarrow> (nat \<Rightarrow> reply)
     \<Rightarrow> (event list \<times> (file_record \<times> pydict)) option" where
  "classify_file_with_openai e metadata thread_id oracle =
     (if \<not> thread_log_opens e thread_id then None
      else if OPENAI_API_KEY e = None then None
      else (let (evs, c) = classify_attempts thread_id oracle [0..<3]
            in Some (evs, (metadata, c))))"

text \<open>
  Vocabulary for stating the retry policy: an invocation whose logger and client can be set
  up; the attempts requested in a trace; the events of one rate-limited attempt; the shape of
  the fail-safe classification; and a parsed value that is an object with all three required
  fields.
\<close>

definition ready :: "env \<Rightarrow> nat \<Rightarrow> bool" where
  "ready e thread_id \<longleftrightarrow> thread_log_opens e thread_id \<and> OPENAI_API_KEY e \<noteq> None"

definition requests :: "event list \<Rightarrow> nat list" where
  "requests evs = concat (map (\<lambda>e. case e of Request a \<Rightarrow> [a] | _ \<Rightarrow> []) evs)"

definition rate_limited_round :: "nat \<Rightarrow> nat \<Rightarrow> event list" where
  "rate_limited_round thread_id attempt =
     [Request attempt, Logged thread_id WARNING, Sleep 5000, Sleep 100]"

definition is_fail_safe :: "pydict \<Rightarrow> bool" where
  "is_fail_safe c \<longleftrightarrow>
     map_of c ''important'' = Some (JBool True) \<and> map_of c ''importance'' = Some (JStr ''High'')"

fun well_formed :: "json \<Rightarrow> bool" where
  "well_formed (JObj kvs) = list_all (\<lambda>key. key \<in> set (map fst kvs)) REQUIRED"
| "well_formed v = False"

definition example_record :: file_record where
  "example_record =
     \<lparr>path = ''/Users/me/Library/Caches/app/x.db'', size_bytes = 20480,
      mtime = ''2024-01-01T00:00:00'', is_dir = False, importance = None, reason = None\<rparr>"

section \<open>Worker pool and result aggregator: first half of \<^verbatim>\<open>cleanup_files\<close>\<close>

definition KNOWN_PROGRAMS :: "string list" where
  "KNOWN_PROGRAMS = [''Android Studio'', ''Transporter'']"

text \<open>
  A character is a code point below 256 (paths and operator input are taken to hold no
  other).  \<^verbatim>\<open>str.lower\<close> adds 32 to the code of an upper-case letter, which is setting
  bit 5: the letters are the codes 65 to 90 and 192 to 222 without 215 (the multiplication
  sign); every other character is left as it is.
\<close>

fun lower_char :: "char \<Rightarrow> char" where
  "lower_char (Char b0 b1 b2 b3 b4 b5 b6 b7) =
     (let n = of_char (Char b0 b1 b2 b3 b4 b5 b6 b7) :: nat
      in if (65 \<le> n \<and> n \<le> 90) \<or> (192 \<le> n \<and> n \<le> 222 \<and> n \<noteq> 215)
         then Char b0 b1 b2 b3 b4 True b6 b7
         else Char b0 b1 b2 b3 b4 b5 b6 b7)"

definition lower :: "string \<Rightarrow> string" where
  "lower s = map lower_char s"

fun first_program_in :: "string list \<Rightarrow> string \<Rightarrow> string" where
  "first_program_in [] path_lower = ''Others''"
| "first_program_in (program # rest) path_lower =
     (if sublist (lower program) path_lower then program
      else first_program_in rest path_lower)"

definition get_program_name :: "string \<Rightarrow> string" where
  "get_program_name file_path = first_program_in KNOWN_PROGRAMS (lower file_path)"

text \<open>
  The futures of line 302, in submission order: record \<open>i\<close> is classified with thread id
  \<open>i mod num_threads + 1\<close>, and \<open>oracles i\<close> gives what its attempts observe.  A future holds
  the pair that the invocation returns, or (\<open>None\<close>) the exception that it raised.
\<close>

definition worker_pool ::
  "env \<Rightarrow> nat \<Rightarrow> (nat \<Rightarrow> nat \<Rightarrow> reply) \<Rightarrow> file_record list
     \<Rightarrow> (file_record \<times> pydict) option list" where
  "worker_pool e num_threads oracles files =
     map (\<lambda>(i, metadata).
            map_option snd
              (classify_file_with_openai e metadata (i mod num_threads + 1) (oracles i)))
         (enumerate 0 files)"

text \<open>
  \<^verbatim>\<open>as_completed\<close> hands the futures over in the order in which they finish: \<open>order\<close>
  lists their indices in that order, a permutation of the submitted indices.
\<close>

definition as_completed :: "nat list \<Rightarrow> 'a list \<Rightarrow> 'a list" where
  "as_completed order futures = map (\<lambda>i. futures ! i) order"

record agg =
  to_delete :: "file_record list"
  program_files :: "(string \<times> file_record list) list"
  total_size :: nat
  processed :: nat

definition initial_agg :: agg where
  "initial_agg =
     \<lparr>to_delete = [], program_files = map (\<lambda>program. (program, [])) (KNOWN_PROGRAMS @ [''Others'']),
      total_size = 0, processed = 0\<rparr>"

text \<open>
  Lines 306 to 315 for one completed future.  A subscript on a missing key raises
  \<^verbatim>\<open>KeyError\<close>, which leaves \<^verbatim>\<open>cleanup_files\<close>: the result is \<open>None\<close>.
\<close>

definition aggregate_step :: "agg \<Rightarrow> file_record \<times> pydict \<Rightarrow> agg option" where
  "aggregate_step st r =
     (case r of (metadata, classification) \<Rightarrow>
        (case map_of classification ''important'' of
           None \<Rightarrow> None
         | Some imp \<Rightarrow>
             if \<not> truthy imp then
               (case map_of classification ''importance'' of
                  None \<Rightarrow> None
                | Some tier \<Rightarrow>
                    (case map_of classification ''reason'' of
                       None \<Rightarrow> None
                     | Some why \<Rightarrow>
                         (let metadata' = metadata\<lparr>importance := Some tier, reason := Some why\<rparr>;
                              program = get_program_name (path metadata')
                          in case map_of (program_files st) program of
                               None \<Rightarrow> None
                             | Some bucket \<Rightarrow>
                                 Some (st\<lparr>to_delete := to_delete st @ [metadata'],
                                          program_files :=
                                            AList.update program (bucket @ [metadata'])
                                              (program_files st),
                                          total_size := total_size st + size_bytes metadata',
                                          processed := processed st + 1\<rparr>))))
             else Some (st\<lparr>processed := processed st + 1\<rparr>)))"

text \<open>
  The loop of lines 305 to 321 over the completed futures.  \<^verbatim>\<open>future.result()\<close> raises
  again what the invocation raised, which leaves \<^verbatim>\<open>cleanup_files\<close>.
\<close>

fun aggregate :: "agg \<Rightarrow> (file_record \<times> pydict) option list \<Rightarrow> agg option" where
  "aggregate st [] = Some st"
| "aggregate st (future # rest) =
     (case future of
        None \<Rightarrow> None
      | Some r \<Rightarrow>
          (case aggregate_step st r of None \<Rightarrow> None | Some st' \<Rightarrow> aggregate st' rest))"

definition classify_all ::
  "env \<Rightarrow> nat \<Rightarrow> (nat \<Rightarrow> nat \<Rightarrow> reply) \<Rightarrow> nat list \<Rightarrow> file_record list
     \<Rightarrow> agg option" where
  "classify_all e num_threads oracles order files =
     aggregate initial_agg (as_completed order (worker_pool e num_threads oracles files))"

text \<open>
  Vocabulary for the properties of the aggregator: a pool all of whose invocations can set
  up their logger and client; the pairs that the invocations of such a pool return; a
  classification carrying the three fields; a result pair that the test of line 308 lets
  through; the record as it is stored (with \<^verbatim>\<open>importance\<close> and \<^verbatim>\<open>reason\<close> attached); the
  bucket of a program; and an invocation that errors or exhausts its retries (a failure
  that is not a rate limit, a response that is no object with the three fields, or three
  rate limits).
\<close>

definition pool_ready :: "env \<Rightarrow> nat \<Rightarrow> nat \<Rightarrow> bool" where
  "pool_ready e num_threads batch_size =
     list_all (\<lambda>i. ready e (i mod num_threads + 1)) [0..<batch_size]"

definition returned_pairs ::
  "nat \<Rightarrow> (nat \<Rightarrow> nat \<Rightarrow> reply) \<Rightarrow> file_record list \<Rightarrow> (file_record \<times> pydict) list" where
  "returned_pairs num_threads oracles files =
     map (\<lambda>(i, metadata).
            (metadata, snd (classify_attempts (i mod num_threads + 1) (oracles i) [0..<3])))
         (enumerate 0 files)"

definition has_fields :: "pydict \<Rightarrow> bool" where
  "has_fields c = list_all (\<lambda>key. key \<in> set (map fst c)) REQUIRED"

definition retained :: "file_record \<times> pydict \<Rightarrow> bool" where
  "retained r = (case map_of (snd r) ''important'' of None \<Rightarrow> False | Some imp \<Rightarrow> \<not> truthy imp)"

definition attach :: "file_record \<times> pydict \<Rightarrow> file_record" where
  "attach r = (fst r)\<lparr>importance := map_of (snd r) ''importance'',
                      reason := map_of (snd r) ''reason''\<rparr>"

text \<open>
  Attribution in the words of the aggregator's contract: a record belongs to the first
  known program, in the order of the list, whose name occurs in its path when case is
  ignored, and to Others when none does.
\<close>

definition attributed :: "string \<Rightarrow> string \<Rightarrow> bool" where
  "attributed program file_path \<longleftrightarrow>
     (program = ''Android Studio'' \<and> sublist ''android studio'' (lower file_path))
   \<or> (program = ''Transporter'' \<and> sublist ''transporter'' (lower file_path)
        \<and> \<not> sublist ''android studio'' (lower file_path))
   \<or> (program = ''Others'' \<and> \<not> sublist ''android studio'' (lower file_path)
        \<and> \<not> sublist ''transporter'' (lower file_path))"

definition bucket :: "agg \<Rightarrow> string \<Rightarrow> file_record list" where
  "bucket st program = (case map_of (program_files st) program of None \<Rightarrow> [] | Some b \<Rightarrow> b)"

fun fails_from :: "(nat \<Rightarrow> reply) \<Rightarrow> nat list \<Rightarrow> bool" where
  "fails_from oracle [] = True"
| "fails_from oracle (attempt # rest) =
     (case oracle attempt of
        RateLimitError \<Rightarrow> fails_from oracle rest
      | OtherException e \<Rightarrow> True
      | JSONDecodeError e \<Rightarrow> True
      | Loaded r \<Rightarrow> \<not> well_formed r)"

definition invocation_fails :: "(nat \<Rightarrow> reply) \<Rightarrow> bool" where
  "invocation_fails oracle = fails_from oracle [0..<3]"

text \<open>Every program that \<^verbatim>\<open>get_program_name\<close> can return is a key of the mapping.\<close>

definition programs_present :: "agg \<Rightarrow> bool" where
  "programs_present st \<longleftrightarrow> set (KNOWN_PROGRAMS @ [''Others'']) \<subseteq> fst ` set (program_files st)"

text \<open>A batch of three records and what the oracle answers for each, for concrete runs.\<close>

definition example_batch :: "file_record list" where
  "example_batch =
     [example_record\<lparr>path := ''/Users/me/Library/Caches/Android Studio/index.bin''\<rparr>,
      example_record\<lparr>path := ''/Users/me/Library/Logs/sync.log''\<rparr>,
      example_record\<lparr>path := ''/Library/Caches/tool/blob.dat''\<rparr>]"

definition example_oracles :: "nat \<Rightarrow> nat \<Rightarrow> reply" where
  "example_oracles i attempt =
     (if i = 0 then
        Loaded (JObj [(''important'', JBool False), (''importance'', JStr ''Low''),
                      (''reason'', JStr ''cache'')])
      else if i = 1 then RateLimitError
      else Loaded (JObj [(''important'', JInt 0), (''importance'', JStr ''Huge''),
                         (''reason'', JStr ''blob'')]))"

definition null_oracles :: "nat \<Rightarrow> nat \<Rightarrow> reply" where
  "null_oracles i attempt =
     Loaded (JObj [(''important'', JNull), (''importance'', JStr ''Low''),
                   (''reason'', JStr ''log'')])"

definition both_names_record :: file_record where
  "both_names_record =
     example_record\<lparr>path := ''/Users/me/Library/Logs/Transporter/android studio.log''\<rparr>"

definition boolean_oracles :: "nat \<Rightarrow> nat \<Rightarrow> reply" where
  "boolean_oracles i attempt =
     (if attempt = 0 \<and> i = 2 then RateLimitError
      else Loaded (JObj [(''important'', JBool (i = 1)), (''importance'', JStr ''Low''),
                         (''reason'', JStr ''cache'')]))"

section \<open>Selection planner: \<^verbatim>\<open>display_and_filter_files\<close>\<close>

text \<open>
  String operations of the prompts.  \<^verbatim>\<open>str.strip\<close> removes the white space characters at
  both ends: the codes 9 to 13, 28 to 32, 133 (next line) and 160 (no-break space).
  \<^verbatim>\<open>str.split(",")\<close> cuts at every separator and always yields at least one piece.
  \<^verbatim>\<open>str.capitalize\<close> puts the first character in upper case and the others in lower case;
  the lower-case letters are the codes 97 to 122 and 224 to 254 without 247 (the division
  sign).  The three characters whose upper-case form is no code point below 256 (181, 223
  and 255) are left as they are: a piece that starts with one of them is no level name,
  whichever form it takes.
\<close>

definition is_space :: "char \<Rightarrow> bool" where
  "is_space c =
     (let n = of_char c :: nat
      in (9 \<le> n \<and> n \<le> 13) \<or> (28 \<le> n \<and> n \<le> 32) \<or> n = 133 \<or> n = 160)"

definition strip :: "string \<Rightarrow> string" where
  "strip s = rev (dropWhile is_space (rev (dropWhile is_space s)))"

fun split_on :: "char \<Rightarrow> string \<Rightarrow> string list" where
  "split_on sep [] = [[]]"
| "split_on sep (c # cs) =
     (if c = sep then [] # split_on sep cs
      else (case split_on sep cs of [] \<Rightarrow> [[c]] | w # ws \<Rightarrow> (c # w) # ws))"

fun upper_char :: "char \<Rightarrow> char" where
  "upper_char (Char b0 b1 b2 b3 b4 b5 b6 b7) =
     (let n = of_char (Char b0 b1 b2 b3 b4 b5 b6 b7) :: nat
      in if (97 \<le> n \<and> n \<le> 122) \<or> (224 \<le> n \<and> n \<le> 254 \<and> n \<noteq> 247)
         then Char b0 b1 b2 b3 b4 False b6 b7
         else Char b0 b1 b2 b3 b4 b5 b6 b7)"

fun capitalize :: "string \<Rightarrow> string" where
  "capitalize [] = []"
| "capitalize (c # cs) = upper_char c # lower cs"

definition LEVELS :: "string list" where
  "LEVELS = [''Low'', ''Medium'', ''High'']"

text \<open>
  The prompt loops.  \<open>stdin\<close> holds the lines that \<^verbatim>\<open>input\<close> will return; on an exhausted
  input \<^verbatim>\<open>input\<close> raises \<^verbatim>\<open>EOFError\<close> (the result \<open>None\<close>).  Each round of a loop consumes
  one line, and an answer that names nothing valid asks again.  The result is the choice
  and the lines left.
\<close>

fun read_programs_to_keep ::
  "string list \<Rightarrow> string list \<Rightarrow> (string list \<times> string list) option" where
  "read_programs_to_keep valid_programs [] = None"
| "read_programs_to_keep valid_programs (line # stdin) =
     (let response = lower (strip line) in
      if response = ''none'' then Some ([], stdin)
      else if response = ''all'' then Some (valid_programs, stdin)
      else
        (let named = filter (\<lambda>p. p \<in> set (map lower valid_programs))
                       (map strip (split_on CHR '','' response))
         in if named \<noteq> []
            then Some (filter (\<lambda>vp. lower vp \<in> set named) valid_programs, stdin)
            else read_programs_to_keep valid_programs stdin))"

fun read_levels_to_delete :: "string list \<Rightarrow> (string list \<times> string list) option" where
  "read_levels_to_delete [] = None"
| "read_levels_to_delete (line # stdin) =
     (let response = lower (strip line) in
      if response = ''none'' then Some ([], stdin)
      else if response = ''all'' then Some (LEVELS, stdin)
      else
        (let levels = filter (\<lambda>l. l \<in> set LEVELS)
                        (map (\<lambda>l. capitalize (strip l)) (split_on CHR '','' response))
         in if levels \<noteq> [] then Some (levels, stdin)
            else read_levels_to_delete stdin))"

text \<open>
  The test \<^verbatim>\<open>file["importance"] in levels_to_delete\<close> over the files of one program; a
  record without the key raises \<^verbatim>\<open>KeyError\<close>.
\<close>

fun files_in_levels :: "string list \<Rightarrow> file_record list \<Rightarrow> file_record list option" where
  "files_in_levels levels [] = Some []"
| "files_in_levels levels (file # files) =
     (case importance file of
        None \<Rightarrow> None
      | Some tier \<Rightarrow>
          (case files_in_levels levels files of
             None \<Rightarrow> None
           | Some chosen \<Rightarrow> Some (if tier \<in> set (map JStr levels) then file # chosen else chosen)))"

text \<open>
  What the planner yields: the records to move, and, so that they can be spoken about, the
  values its local variables took: \<^verbatim>\<open>programs_to_keep\<close>, and \<^verbatim>\<open>levels_to_delete\<close> for each
  program that was asked about; then the lines of input left over.
\<close>

record selection =
  to_move :: "file_record list"
  programs_to_keep :: "string list"
  levels_chosen :: "(string \<times> string list) list"
  stdin_left :: "string list"

text \<open>The loop of lines 259 to 281 over the items of the mapping.\<close>

fun select_files ::
  "string list \<Rightarrow> (string \<times> file_record list) list \<Rightarrow> string list \<Rightarrow> selection option" where
  "select_files keep [] stdin =
     Some \<lparr>to_move = [], programs_to_keep = keep, levels_chosen = [], stdin_left = stdin\<rparr>"
| "select_files keep ((program, files) # rest) stdin =
     (if files = [] \<or> program \<in> set keep then select_files keep rest stdin
      else
        (case read_levels_to_delete stdin of
           None \<Rightarrow> None
         | Some (levels, stdin') \<Rightarrow>
             (case files_in_levels levels files of
                None \<Rightarrow> None
              | Some chosen \<Rightarrow>
                  (case select_files keep rest stdin' of
                     None \<Rightarrow> None
                   | Some sel \<Rightarrow>
                       Some (sel\<lparr>to_move := chosen @ to_move sel,
                                 levels_chosen := (program, levels) # levels_chosen sel\<rparr>)))))"

text \<open>
  The summary of lines 219 to 236 reads \<^verbatim>\<open>importance\<close> and \<^verbatim>\<open>reason\<close> of every record
  shown; it goes through when every record has both keys.
\<close>

definition summary_ok :: "(string \<times> file_record list) list \<Rightarrow> bool" where
  "summary_ok groups =
     list_all (\<lambda>(program, files).
        list_all (\<lambda>file. importance file \<noteq> None \<and> reason file \<noteq> None) files) groups"

definition display_and_filter_files ::
  "(string \<times> file_record list) list \<Rightarrow> string list \<Rightarrow> selection option" where
  "display_and_filter_files groups stdin =
     (if groups = [] then
        Some \<lparr>to_move = [], programs_to_keep = [], levels_chosen = [], stdin_left = stdin\<rparr>
      else if \<not> summary_ok groups then None
      else
        (let valid_programs = map fst (filter (\<lambda>(program, files). files \<noteq> []) groups)
         in if valid_programs = [] then
              Some \<lparr>to_move = [], programs_to_keep = [], levels_chosen = [], stdin_left = stdin\<rparr>
            else
              (case read_programs_to_keep valid_programs stdin of
                 None \<Rightarrow> None
               | Some (keep, stdin') \<Rightarrow> select_files keep groups stdin')))"

text \<open>
  What the operator asks for, read off the lines typed.  An answer is taken without the
  white space around it and without regard to case; its entries are the pieces between
  commas.  A line marks a program to keep when it is "all" or has the program's name among
  its entries, and it is not "none"; it answers the first prompt when it is "none", "all"
  or marks some program that has records.  A line chooses a tier for deletion when the
  tier is one of the three, and the line is "all" or has the tier among its entries, and it
  is not "none"; it answers the second prompt when it is "none", "all" or chooses some tier.
  The programs asked about are those with records that the first answer does not keep, in
  the order of the mapping; each gets the next line that answers the prompt.  The selection
  the operator asked for is, program by program, nothing for a program kept, and otherwise
  the records whose tier the program's line chooses.  What is typed at a sequence of
  prompts is, for each prompt, the lines that do not answer it and then the line that does.
\<close>

definition answer :: "string \<Rightarrow> string" where
  "answer line = lower (strip line)"

definition entries :: "string \<Rightarrow> string list" where
  "entries line = map strip (split_on CHR '','' (answer line))"

definition keeps :: "string \<Rightarrow> string \<Rightarrow> bool" where
  "keeps line program \<longleftrightarrow>
     answer line \<noteq> ''none'' \<and> (answer line = ''all'' \<or> lower program \<in> set (entries line))"

definition keep_answer :: "string list \<Rightarrow> string \<Rightarrow> bool" where
  "keep_answer valid_programs line \<longleftrightarrow>
     answer line = ''none'' \<or> answer line = ''all'' \<or> list_ex (keeps line) valid_programs"

definition deletes :: "string \<Rightarrow> string \<Rightarrow> bool" where
  "deletes line tier \<longleftrightarrow>
     tier \<in> set LEVELS \<and> answer line \<noteq> ''none''
     \<and> (answer line = ''all'' \<or> tier \<in> set (map capitalize (entries line)))"

definition tier_answer :: "string \<Rightarrow> bool" where
  "tier_answer line \<longleftrightarrow>
     answer line = ''none'' \<or> answer line = ''all'' \<or> list_ex (deletes line) LEVELS"

definition programs_with_records :: "(string \<times> file_record list) list \<Rightarrow> string list" where
  "programs_with_records groups = map fst (filter (\<lambda>(program, files). files \<noteq> []) groups)"

definition asked_programs :: "(string \<times> file_record list) list \<Rightarrow> string \<Rightarrow> string list" where
  "asked_programs groups keep_line =
     filter (\<lambda>program. \<not> keeps keep_line program) (programs_with_records groups)"

definition selected_by :: "string \<Rightarrow> file_record \<Rightarrow> bool" where
  "selected_by line f =
     (case importance f of Some (JStr tier) \<Rightarrow> deletes line tier | _ \<Rightarrow> False)"

definition operator_selection ::
  "(string \<times> file_record list) list \<Rightarrow> string \<Rightarrow> string list \<Rightarrow> file_record list" where
  "operator_selection groups keep_line tier_lines =
     concat (map (\<lambda>(program, files).
        if keeps keep_line program then []
        else (case map_of (zip (asked_programs groups keep_line) tier_lines) program of
                None \<Rightarrow> []
              | Some line \<Rightarrow> filter (selected_by line) files)) groups)"

definition typed :: "(string list \<times> string) list \<Rightarrow> string list" where
  "typed answers = concat (map (\<lambda>(rejected, accepted). rejected @ [accepted]) answers)"

text \<open>A mapping as the aggregator leaves it, and the lines an operator types.\<close>

definition example_groups :: "(string \<times> file_record list) list" where
  "example_groups =
     [(''Android Studio'',
        [example_record\<lparr>path := ''/Users/me/Library/Caches/Android Studio/index.bin'',
                         importance := Some (JStr ''Low''), reason := Some (JStr ''cache'')\<rparr>]),
      (''Transporter'', []),
      (''Others'',
        [example_record\<lparr>path := ''/Library/Caches/tool/blob.dat'',
                         importance := Some (JStr ''High''), reason := Some (JStr ''blob'')\<rparr>])]"

definition example_stdin :: "string list" where
  "example_stdin = [''editor'', '' Android Studio '', ''huge'', ''High, low'', ''y'']"

section \<open>Paths: the functions of \<^verbatim>\<open>os.path\<close> that the mover calls\<close>

text \<open>\<^verbatim>\<open>sep.join(parts)\<close>.\<close>

fun join_with :: "string \<Rightarrow> string list \<Rightarrow> string" where
  "join_with sep [] = []"
| "join_with sep [x] = x"
| "join_with sep (x # y # ys) = x @ sep @ join_with sep (y # ys)"

text \<open>
  The loop of \<^verbatim>\<open>posixpath.normpath\<close> over the components: empty components and \<^verbatim>\<open>.\<close> are
  dropped; \<^verbatim>\<open>..\<close> removes the component before it, is dropped at the root, and is kept
  at the start of a relative path or after another \<^verbatim>\<open>..\<close>.
\<close>

fun collapse :: "bool \<Rightarrow> string list \<Rightarrow> string list \<Rightarrow> string list" where
  "collapse rooted new_comps [] = new_comps"
| "collapse rooted new_comps (part # parts) =
     (if part = [] \<or> part = ''.'' then collapse rooted new_comps parts
      else if part \<noteq> ''..'' \<or> (\<not> rooted \<and> new_comps = [])
                \<or> (new_comps \<noteq> [] \<and> last new_comps = ''..'')
        then collapse rooted (new_comps @ [part]) parts
      else if new_comps \<noteq> [] then collapse rooted (butlast new_comps) parts
      else collapse rooted new_comps parts)"

definition normpath :: "string \<Rightarrow> string" where
  "normpath p =
     (if p = [] then ''.''
      else
        (let initial_slashes =
               (if prefix ''//'' p \<and> \<not> prefix ''///'' p then 2
                else if prefix ''/'' p then 1 else (0::nat));
             comps = collapse (initial_slashes \<noteq> 0) [] (split_on CHR ''/'' p);
             q = replicate initial_slashes CHR ''/'' @ join_with ''/'' comps
         in if q = [] then ''.'' else q))"

text \<open>\<^verbatim>\<open>os.path.join(a, b)\<close>, \<^verbatim>\<open>os.path.abspath\<close> (with the working directory) and
  \<^verbatim>\<open>os.path.dirname\<close>.\<close>

definition join :: "string \<Rightarrow> string \<Rightarrow> string" where
  "join a b =
     (if prefix ''/'' b then b
      else if a = [] \<or> last a = CHR ''/'' then a @ b
      else a @ ''/'' @ b)"

definition abspath :: "string \<Rightarrow> string \<Rightarrow> string" where
  "abspath wd p = normpath (if prefix ''/'' p then p else join wd p)"

definition rstrip_slash :: "string \<Rightarrow> string" where
  "rstrip_slash s = rev (dropWhile (\<lambda>c. c = CHR ''/'') (rev s))"

definition dirname :: "string \<Rightarrow> string" where
  "dirname p =
     (let head = rev (dropWhile (\<lambda>c. c \<noteq> CHR ''/'') (rev p))
      in if head \<noteq> [] \<and> head \<noteq> replicate (length head) CHR ''/'' then rstrip_slash head
         else head)"

text \<open>
  \<^verbatim>\<open>os.path.relpath(path, start)\<close>: \<^verbatim>\<open>ValueError\<close> (here \<open>None\<close>) on an empty path; otherwise
  as many \<^verbatim>\<open>..\<close> as \<open>start\<close> has components beyond the common prefix, then the rest of
  \<open>path\<close>.  The components are not empty, so that joining them with \<^verbatim>\<open>os.path.join\<close> is
  joining them with the separator.
\<close>

definition relpath :: "string \<Rightarrow> string \<Rightarrow> string \<Rightarrow> string option" where
  "relpath wd p start =
     (if p = [] then None
      else
        (let start_list = filter (\<lambda>x. x \<noteq> []) (split_on CHR ''/'' (abspath wd start));
             path_list = filter (\<lambda>x. x \<noteq> []) (split_on CHR ''/'' (abspath wd p));
             i = length (longest_common_prefix start_list path_list);
             rel_list = replicate (length start_list - i) ''..'' @ drop i path_list
         in Some (if rel_list = [] then ''.'' else join_with ''/'' rel_list)))"

text \<open>
  \<^verbatim>\<open>os.path.expanduser\<close> for the current user: \<open>home\<close> is the value of \<^verbatim>\<open>HOME\<close> (or the
  home directory of the password database).  A path that does not start with \<^verbatim>\<open>~\<close> is
  returned as it is; the form \<^verbatim>\<open>~user\<close>, which the program never passes, is left as it is
  too.
\<close>

fun expanduser :: "string \<Rightarrow> string \<Rightarrow> string" where
  "expanduser home [] = []"
| "expanduser home (c # rest) =
     (if c = CHR ''~'' \<and> (rest = [] \<or> prefix ''/'' rest)
      then (let p = rstrip_slash home @ rest in if p = [] then ''/'' else p)
      else c # rest)"

section \<open>Scanner filter\<close>

definition BACKUP_DIR :: "env \<Rightarrow> string" where
  "BACKUP_DIR e = expanduser (userhome e) ''~/SystemDataCleanupBackup''"

definition MIN_FILE_SIZE_KB :: nat where
  "MIN_FILE_SIZE_KB = 10"

definition PROTECTED_PATHS :: "string list" where
  "PROTECTED_PATHS =
     [''/Library/Caches/com.apple.'', ''/private/var/db/'', ''/private/var/protected/'',
      ''/private/var/folders/'']"

definition is_protected_path :: "string \<Rightarrow> bool" where
  "is_protected_path file_path = list_ex (\<lambda>p. prefix p file_path) PROTECTED_PATHS"

text \<open>
  \<^verbatim>\<open>get_file_metadata\<close>; \<open>stat\<close> is what \<^verbatim>\<open>os.stat\<close> and \<^verbatim>\<open>os.path.isdir\<close> report for the
  path (size in bytes, modification time, directory flag), or \<open>None\<close> when they raise
  \<^verbatim>\<open>OSError\<close>.  \<^verbatim>\<open>st_size / 1024 < 10\<close> is \<open>st_size < 10240\<close>.
\<close>

definition get_file_metadata ::
  "string \<Rightarrow> (nat \<times> string \<times> bool) option \<Rightarrow> file_record option" where
  "get_file_metadata file_path stat =
     (if is_protected_path file_path then None
      else
        (case stat of
           None \<Rightarrow> None
         | Some (st_size, mt, d) \<Rightarrow>
             if st_size < 1024 * MIN_FILE_SIZE_KB then None
             else Some \<lparr>path = file_path, size_bytes = st_size, mtime = mt, is_dir = d,
                        importance = None, reason = None\<rparr>))"

text \<open>The roots that \<^verbatim>\<open>scan_system_data\<close> walks (lines 90 to 96).\<close>

definition SCAN_DIRS :: "env \<Rightarrow> string list" where
  "SCAN_DIRS e =
     [expanduser (userhome e) ''~/Library/Caches'', ''/Library/Caches'',
      expanduser (userhome e) ''~/Library/Logs'', ''/private/var/tmp'', ''/private/var/log'']"

section \<open>Backup mover and second half of \<^verbatim>\<open>cleanup_files\<close>\<close>

text \<open>
  The file system is reached through \<^verbatim>\<open>os.makedirs(d, exist_ok=True)\<close> and
  \<^verbatim>\<open>shutil.move(src, dst)\<close> only.  Both are parameters: each takes the file system to the
  file system after the call and tells whether the call returned (\<open>True\<close>) or raised.
\<close>

record 'fs os =
  makedirs :: "string \<Rightarrow> 'fs \<Rightarrow> bool \<times> 'fs"
  move :: "string \<Rightarrow> string \<Rightarrow> 'fs \<Rightarrow> bool \<times> 'fs"

type_synonym logline = "level \<times> string"

text \<open>
  \<^verbatim>\<open>move_to_backup\<close> on the file system and the main log.  \<open>None\<close> is the \<^verbatim>\<open>ValueError\<close> of
  \<^verbatim>\<open>relpath\<close>, raised outside the \<^verbatim>\<open>try\<close>; otherwise the new state and the returned value.
\<close>

definition move_to_backup ::
  "'fs os \<Rightarrow> env \<Rightarrow> string \<Rightarrow> 'fs \<times> logline list
     \<Rightarrow> (('fs \<times> logline list) \<times> string option) option" where
  "move_to_backup sys e file_path s =
     (case relpath (cwd e) file_path (expanduser (userhome e) ''~'') of
        None \<Rightarrow> None
      | Some rel_path \<Rightarrow>
          (let backup_path = join (BACKUP_DIR e) rel_path;
               backup_dir = dirname backup_path;
               failed = (ERROR, ''Failed to move '' @ file_path);
               moved = (INFO, ''Moved '' @ file_path @ '' to '' @ backup_path)
           in case makedirs sys backup_dir (fst s) of
                (False, fs1) \<Rightarrow> Some ((fs1, snd s @ [failed]), None)
              | (True, fs1) \<Rightarrow>
                  if \<not> DRY_RUN e then
                    (case move sys file_path backup_path fs1 of
                       (False, fs2) \<Rightarrow> Some ((fs2, snd s @ [failed]), None)
                     | (True, fs2) \<Rightarrow> Some ((fs2, snd s @ [moved]), Some backup_path))
                  else Some ((fs1, snd s @ [moved]), Some backup_path)))"

text \<open>The loop of lines 343 to 347.\<close>

fun move_all ::
  "'fs os \<Rightarrow> env \<Rightarrow> file_record list \<Rightarrow> 'fs \<times> logline list \<Rightarrow> ('fs \<times> logline list) option" where
  "move_all sys e [] s = Some s"
| "move_all sys e (metadata # rest) s =
     (if DRY_RUN e
      then move_all sys e rest (fst s, snd s @ [(INFO, ''[DRY RUN] Would move '' @ path metadata)])
      else
        (case move_to_backup sys e (path metadata) s of
           None \<Rightarrow> None
         | Some (s', r) \<Rightarrow> move_all sys e rest s'))"

text \<open>
  \<^verbatim>\<open>cleanup_files\<close>.  \<open>None\<close> is an exception leaving the function; otherwise the file
  system and the lines of the main log written from line 326 on.  The line of line 336 is
  cut after its first words: the count and the size that it reports are left out.
\<close>

definition cleanup_files ::
  "'fs os \<Rightarrow> env \<Rightarrow> nat \<Rightarrow> (nat \<Rightarrow> nat \<Rightarrow> reply) \<Rightarrow> nat list \<Rightarrow> string list \<Rightarrow> 'fs
     \<Rightarrow> file_record list \<Rightarrow> ('fs \<times> logline list) option" where
  "cleanup_files sys e num_threads oracles order stdin fs0 files =
     (case classify_all e num_threads oracles order files of
        None \<Rightarrow> None
      | Some st \<Rightarrow>
          if to_delete st = [] then
            Some (fs0, [(INFO, ''No non-important files found to clean up'')])
          else
            (case display_and_filter_files (program_files st) stdin of
               None \<Rightarrow> None
             | Some sel \<Rightarrow>
                 if to_move sel = [] then Some (fs0, [(INFO, ''No files selected for cleanup'')])
                 else
                   (case stdin_left sel of
                      [] \<Rightarrow> None
                    | confirm # left \<Rightarrow>
                        if lower confirm \<noteq> ''y''
                        then Some (fs0, [(INFO, ''Proceeding with''),
                                         (INFO, ''Cleanup aborted by user'')])
                        else
                          (case move_all sys e (to_move sel) (fs0, [(INFO, ''Proceeding with'')]) of
                             None \<Rightarrow> None
                           | Some (fs1, lines) \<Rightarrow>
                               Some (fs1,
                                 lines @ [(INFO, ''Files moved to '' @ BACKUP_DIR e
                                            @ ''. Review before permanent deletion.'')]
                                 @ (if DRY_RUN e
                                    then [(INFO, ''Running in DRY_RUN mode. No files were actually moved.'')]
                                    else []))))))"

text \<open>
  A file system that only records the calls made on it, each call succeeding or raising
  as \<open>mk_ok\<close> and \<open>mv_ok\<close> say.
\<close>

datatype fs_call = Makedirs string | Move string string

definition recording_os ::
  "(string \<Rightarrow> bool) \<Rightarrow> (string \<Rightarrow> string \<Rightarrow> bool) \<Rightarrow> (fs_call list) os" where
  "recording_os mk_ok mv_ok =
     \<lparr>makedirs = (\<lambda>d calls. (mk_ok d, calls @ [Makedirs d])),
      move = (\<lambda>src dst calls. (mv_ok src dst, calls @ [Move src dst]))\<rparr>"

text \<open>
  Vocabulary for paths: the absolute normal path with the given components; components
  that are file names (not empty, no separator, neither \<^verbatim>\<open>.\<close> nor \<^verbatim>\<open>..\<close>); the components
  of a path once it is resolved; a path lying under a directory.
\<close>

definition path_of :: "string list \<Rightarrow> string" where
  "path_of cs = (if cs = [] then ''/'' else concat (map (\<lambda>c. CHR ''/'' # c) cs))"

definition names :: "string list \<Rightarrow> bool" where
  "names cs = list_all (\<lambda>c. c \<noteq> [] \<and> c \<noteq> ''.'' \<and> c \<noteq> ''..'' \<and> CHR ''/'' \<notin> set c) cs"

definition resolved :: "string \<Rightarrow> string list" where
  "resolved p = filter (\<lambda>x. x \<noteq> []) (split_on CHR ''/'' (normpath p))"

definition is_under :: "string \<Rightarrow> string \<Rightarrow> bool" where
  "is_under root p = prefix (resolved root) (resolved p)"

definition example_env :: env where
  "example_env =
     \<lparr>userhome = ''/Users/me'', cwd = ''/Users/me/work'', DRY_RUN = False,
      OPENAI_API_KEY = Some ''sk-example'', thread_log_opens = (\<lambda>thread_id. True)\<rparr>"

section \<open>Retry policy of the oracle client\<close>

lemma fail_safe_is_fail_safe: "is_fail_safe (fail_safe why)"
  by (simp add: is_fail_safe_def fail_safe_def)

lemma classify_attempts_skip:
  "\<forall>a\<in>set pre. oracle a = RateLimitError \<Longrightarrow>
   classify_attempts t oracle (pre @ rest) =
     (concat (map (rate_limited_round t) pre) @ fst (classify_attempts t oracle rest),
      snd (classify_attempts t oracle rest))"
  by (induction pre) (auto simp: split_beta Let_def rate_limited_round_def)

lemma upt3_split: "k \<le> 3 \<Longrightarrow> [0..<3] = [0..<k] @ [k..<3]"
  using upt_add_eq_append [of 0 k "3 - k"] by simp

lemma classify_after_rate_limits:
  assumes "k \<le> 3" and "\<forall>j<k. oracle j = RateLimitError"
  shows "classify_attempts t oracle [0..<3] =
      (concat (map (rate_limited_round t) [0..<k]) @ fst (classify_attempts t oracle [k..<3]),
       snd (classify_attempts t oracle [k..<3]))"
proof -
  have "\<forall>a\<in>set [0..<k]. oracle a = RateLimitError"
    using assms(2) by simp
  from classify_attempts_skip [OF this, of t "[k..<3]"] upt3_split [OF assms(1)]
  show ?thesis by simp
qed

lemma final_attempt:
  "k < 3 \<Longrightarrow> oracle k \<noteq> RateLimitError \<Longrightarrow>
   \<exists>lvl. fst (classify_attempts t oracle [k..<3]) = [Request k, Logged t lvl]"
  by (cases "oracle k") (auto simp: upt_conv_Cons split: sum.splits)

lemma final_failure:
  "k < 3 \<Longrightarrow> oracle k = OtherException e \<or> oracle k = JSONDecodeError e \<Longrightarrow>
   is_fail_safe (snd (classify_attempts t oracle [k..<3]))"
  by (auto simp: upt_conv_Cons fail_safe_is_fail_safe)

lemma classify_ready:
  "ready e thread_id \<Longrightarrow>
   classify_file_with_openai e metadata thread_id oracle =
     Some (fst (classify_attempts thread_id oracle [0..<3]),
           (metadata, snd (classify_attempts thread_id oracle [0..<3])))"
  by (simp add: classify_file_with_openai_def ready_def split_beta)

text \<open>
  C2.  Take an invocation whose logger and client are set up, so that it enters its loop,
  and let the first \<open>k\<close> attempts be rate-limited, where either \<open>k = 3\<close> or attempt \<open>k\<close>
  is not rate-limited.  Then the invocation returns, having performed, for each of the \<open>k\<close>
  rate-limited attempts in turn, the request followed by the 5 second cooldown (and the 0.1
  second pause that ends the loop body); after them it makes the one further request \<open>k\<close>
  if \<open>k < 3\<close> and none if \<open>k = 3\<close>, and it never sleeps again.  So at most three requests
  are made, a non-rate-limit failure is never retried, and both such a failure (an exception
  other than the rate limit, or a JSON decode error) and the exhaustion of the three
  attempts yield the fail-safe classification \<open>important = True\<close>, \<open>importance = High\<close>.
\<close>

theorem retry_policy:
  assumes "ready e thread_id"
    and "k \<le> 3" and "\<forall>j<k. oracle j = RateLimitError"
    and "k < 3 \<longrightarrow> oracle k \<noteq> RateLimitError"
  shows "\<exists>evs c final.
      classify_file_with_openai e metadata thread_id oracle = Some (evs, (metadata, c))
    \<and> evs = concat (map (rate_limited_round thread_id) [0..<k]) @ final
    \<and> requests final = (if k < 3 then [k] else [])
    \<and> (\<forall>ms. Sleep ms \<notin> set final)
    \<and> ((k = 3 \<or> (\<exists>x. oracle k = OtherException x \<or> oracle k = JSONDecodeError x)) \<longrightarrow>
         is_fail_safe c)"
proof -
  note run = classify_after_rate_limits [OF assms(2) assms(3), of thread_id]
  note cl = classify_ready [OF assms(1), of metadata "oracle"]
  show ?thesis
  proof (cases "k < 3")
    case True
    with assms(4) obtain lvl where
      "fst (classify_attempts thread_id oracle [k..<3]) = [Request k, Logged thread_id lvl]"
      using final_attempt by blast
    moreover have "(\<exists>x. oracle k = OtherException x \<or> oracle k = JSONDecodeError x) \<longrightarrow>
        is_fail_safe (snd (classify_attempts thread_id oracle [k..<3]))"
      using final_failure [OF True] by blast
    ultimately show ?thesis using True run cl
      by (auto simp: requests_def)
  next
    case False
    with assms(2) have "k = 3" by simp
    with run cl show ?thesis
      by (auto simp: requests_def fail_safe_is_fail_safe)
  qed
qed

theorem retry_policy_witness:
  "\<exists>evs c final.
      classify_file_with_openai example_env example_record 1
        (\<lambda>n. if n = 0 then RateLimitError else OtherException ''timeout'') =
          Some (evs, (example_record, c))
    \<and> evs = concat (map (rate_limited_round 1) [0..<1]) @ final
    \<and> requests final = [1]
    \<and> (\<forall>ms. Sleep ms \<notin> set final)
    \<and> is_fail_safe c"
proof -
  have r: "ready example_env 1"
    by (simp add: ready_def example_env_def)
  from retry_policy [OF r, of 1 "\<lambda>n. if n = 0 then RateLimitError else OtherException ''timeout''"
      example_record]
  show ?thesis by simp
qed

section \<open>Response validation\<close>

lemma inspect_well_formed:
  assumes "well_formed (JObj kvs)"
  shows "\<exists>tier. map_of kvs ''importance'' = Some tier \<and>
     inspect_result (JObj kvs) =
       Inr (INFO, if tier \<in> set TIERS then kvs
                  else AList.update ''importance'' (JStr ''Medium'') kvs)"
proof -
  from assms have "''importance'' \<in> fst ` set kvs"
    by (simp add: REQUIRED_def)
  then obtain tier where "map_of kvs ''importance'' = Some tier"
    by (metis map_of_eq_None_iff not_Some_eq)
  with assms show ?thesis by simp
qed

lemma inspect_malformed:
  "\<not> well_formed r \<Longrightarrow>
   (\<exists>e. inspect_result r = Inl e) \<or> (\<exists>lvl why. inspect_result r = Inr (lvl, fail_safe why))"
  by (cases r) auto

lemma update_present_keys:
  "k \<in> fst ` set al \<Longrightarrow> map fst (AList.update k v al) = map fst al"
  by (induction al) auto

text \<open>
  C3.  Take an invocation whose logger and client are set up, and the response that ends
  it: attempt \<open>k < 3\<close>, all earlier attempts having been rate-limited.  The invocation
  returns the record with a classification.  If the response parses to an object with the
  three required fields whose tier is none of Low, Medium, High, the classification is that
  object with \<open>importance\<close> set to Medium: every other key keeps its value and the keys keep
  their order.  If the tier is one of the three, the object is returned unchanged.  If the
  response does not parse, or parses to anything that is not an object with the three
  fields, the fail-safe classification is returned.
\<close>

theorem response_validation:
  assumes "ready e thread_id" and "k < 3" and "\<forall>j<k. oracle j = RateLimitError"
  shows "\<exists>evs c.
     classify_file_with_openai e metadata thread_id oracle = Some (evs, (metadata, c))
   \<and> (oracle k = Loaded (JObj kvs) \<and> well_formed (JObj kvs) \<and>
       map_of kvs ''importance'' = Some tier \<and> tier \<notin> set TIERS \<longrightarrow>
       map_of c = (map_of kvs)(''importance'' \<mapsto> JStr ''Medium'') \<and>
       map fst c = map fst kvs)
   \<and> (oracle k = Loaded (JObj kvs) \<and> well_formed (JObj kvs) \<and>
       map_of kvs ''importance'' = Some tier \<and> tier \<in> set TIERS \<longrightarrow>
       c = kvs)
   \<and> ((\<exists>x. oracle k = JSONDecodeError x) \<or> (\<exists>r. oracle k = Loaded r \<and> \<not> well_formed r) \<longrightarrow>
       is_fail_safe c)"
proof -
  have le: "k \<le> 3" using assms(2) by simp
  note cl = classify_ready [OF assms(1), of metadata "oracle"]
  have run: "snd (classify_attempts thread_id oracle [0..<3]) =
      snd (classify_attempts thread_id oracle (k # [Suc k..<3]))"
    using classify_after_rate_limits [OF le assms(3), of thread_id] assms(2)
    by (simp add: upt_conv_Cons)
  have wf: "snd (classify_attempts thread_id oracle (k # [Suc k..<3])) =
      (if tier \<in> set TIERS then kvs else AList.update ''importance'' (JStr ''Medium'') kvs)"
    if "oracle k = Loaded (JObj kvs)" "well_formed (JObj kvs)"
      "map_of kvs ''importance'' = Some tier"
    using that inspect_well_formed [OF that(2)] by auto
  have keys: "''importance'' \<in> fst ` set kvs" if "well_formed (JObj kvs)"
    using that by (simp add: REQUIRED_def)
  have bad: "is_fail_safe (snd (classify_attempts thread_id oracle (k # [Suc k..<3])))"
    if "oracle k = Loaded r" "\<not> well_formed r" for r
    using that inspect_malformed [OF that(2)] by (auto simp: fail_safe_is_fail_safe)
  have dec: "is_fail_safe (snd (classify_attempts thread_id oracle (k # [Suc k..<3])))"
    if "oracle k = JSONDecodeError x" for x
    using that by (simp add: fail_safe_is_fail_safe)
  show ?thesis
    unfolding cl run using wf keys bad dec
    by (auto simp: update_conv' update_present_keys)
qed

theorem response_validation_witness:
  "(\<exists>evs c. classify_file_with_openai example_env example_record 1
       (\<lambda>n. Loaded (JObj [(''important'', JBool False), (''importance'', JStr ''Critical''),
                            (''reason'', JStr ''cache''), (''note'', JInt 7)])) =
         Some (evs, (example_record, c))
     \<and> map_of c =
         (map_of [(''important'', JBool False), (''importance'', JStr ''Critical''),
                  (''reason'', JStr ''cache''), (''note'', JInt 7)])
           (''importance'' \<mapsto> JStr ''Medium'')
     \<and> map fst c = [''important'', ''importance'', ''reason'', ''note''])
   \<and> (\<exists>evs. classify_file_with_openai example_env example_record 1
       (\<lambda>n. if n = 0 then RateLimitError
             else Loaded (JObj [(''important'', JBool False), (''importance'', JStr ''Low''),
                                (''reason'', JStr ''cache'')])) =
         Some (evs, (example_record,
           [(''important'', JBool False), (''importance'', JStr ''Low''),
            (''reason'', JStr ''cache'')])))
   \<and> (\<exists>evs c. classify_file_with_openai example_env example_record 1
       (\<lambda>n. Loaded (JObj [(''important'', JBool False), (''importance'', JStr ''Low'')])) =
         Some (evs, (example_record, c)) \<and> is_fail_safe c)
   \<and> (\<exists>evs c. classify_file_with_openai example_env example_record 1
       (\<lambda>n. JSONDecodeError ''Expecting value'') = Some (evs, (example_record, c))
       \<and> is_fail_safe c)"
proof -
  have r: "ready example_env 1"
    by (simp add: ready_def example_env_def)
  have k0: "(0::nat) < 3" and k1: "(1::nat) < 3" by simp_all
  show ?thesis
    using
      response_validation [OF r k0, of
        "\<lambda>n. Loaded (JObj [(''important'', JBool False), (''importance'', JStr ''Critical''),
                             (''reason'', JStr ''cache''), (''note'', JInt 7)])"
        example_record
        "[(''important'', JBool False), (''importance'', JStr ''Critical''),
          (''reason'', JStr ''cache''), (''note'', JInt 7)]"
        "JStr ''Critical''"]
      response_validation [OF r k1, of
        "\<lambda>n. if n = 0 then RateLimitError
              else Loaded (JObj [(''important'', JBool False), (''importance'', JStr ''Low''),
                                 (''reason'', JStr ''cache'')])"
        example_record
        "[(''important'', JBool False), (''importance'', JStr ''Low''), (''reason'', JStr ''cache'')]"
        "JStr ''Low''"]
      response_validation [OF r k0, of
        "\<lambda>n. Loaded (JObj [(''important'', JBool False), (''importance'', JStr ''Low'')])"
        example_record "[]" JNull]
      response_validation [OF r k0, of "\<lambda>n. JSONDecodeError ''Expecting value''"
        example_record "[]" JNull]
    by (simp add: REQUIRED_def TIERS_def)
qed

section \<open>Worker pool and aggregator\<close>

lemma fail_safe_has_fields: "has_fields (fail_safe why)"
  by (simp add: has_fields_def fail_safe_def REQUIRED_def)

lemma has_fields_update: "has_fields kvs \<Longrightarrow> has_fields (AList.update k v kvs)"
  by (simp add: has_fields_def dom_update list_all_iff)

lemma inspect_result_has_fields:
  assumes "inspect_result r = Inr (lvl, c)"
  shows "has_fields c"
proof (cases "well_formed r")
  case True
  then obtain kvs where r: "r = JObj kvs" by (cases r) auto
  from True r have keys: "has_fields kvs" "''importance'' \<in> fst ` set kvs"
    by (simp_all add: has_fields_def REQUIRED_def)
  from inspect_well_formed [of kvs] True r assms
  have "c = kvs \<or> c = AList.update ''importance'' (JStr ''Medium'') kvs"
    by (auto split: if_splits)
  with keys(1) show ?thesis
    by (auto intro: has_fields_update)
next
  case False
  from inspect_malformed [OF this] assms show ?thesis
    by (auto simp: fail_safe_has_fields)
qed

lemma classify_attempts_has_fields: "has_fields (snd (classify_attempts t oracle as))"
proof (induction as)
  case Nil
  show ?case by (simp add: fail_safe_has_fields)
next
  case (Cons a as)
  show ?case
  proof (cases "oracle a")
    case RateLimitError
    with Cons show ?thesis by (simp add: split_beta)
  next
    case (Loaded r)
    then show ?thesis
      by (cases "inspect_result r")
        (auto simp: fail_safe_has_fields dest: inspect_result_has_fields)
  qed (simp_all add: fail_safe_has_fields)
qed

lemma fails_from_fail_safe:
  "fails_from oracle as \<Longrightarrow> is_fail_safe (snd (classify_attempts t oracle as))"
proof (induction as)
  case Nil
  show ?case by (simp add: fail_safe_is_fail_safe)
next
  case (Cons a as)
  show ?case
  proof (cases "oracle a")
    case RateLimitError
    with Cons show ?thesis by (simp add: split_beta)
  next
    case (Loaded r)
    with Cons.prems have "\<not> well_formed r" by simp
    from inspect_malformed [OF this] Loaded show ?thesis
      by (auto simp: fail_safe_is_fail_safe)
  qed (simp_all add: fail_safe_is_fail_safe)
qed

lemma returned_pairs_length: "length (returned_pairs n oracles files) = length files"
  by (simp add: returned_pairs_def)

lemma returned_pairs_nth:
  "i < length files \<Longrightarrow>
   returned_pairs n oracles files ! i =
     (files ! i, snd (classify_attempts (i mod n + 1) (oracles i) [0..<3]))"
  by (simp add: returned_pairs_def nth_enumerate_eq split_beta)

lemma returned_pairs_records: "map fst (returned_pairs n oracles files) = files"
  by (rule nth_equalityI) (simp_all add: returned_pairs_length returned_pairs_nth)

lemma returned_pairs_has_fields:
  "r \<in> set (returned_pairs n oracles files) \<Longrightarrow> has_fields (snd r)"
  by (auto simp: in_set_conv_nth returned_pairs_length returned_pairs_nth
      classify_attempts_has_fields)

lemma as_completed_mset:
  "mset order = mset [0..<length futures] \<Longrightarrow> mset (as_completed order futures) = mset futures"
proof -
  assume "mset order = mset [0..<length futures]"
  then have "mset (map (\<lambda>i. futures ! i) order) = mset (map (\<lambda>i. futures ! i) [0..<length futures])"
    by (metis mset_map)
  then show ?thesis by (simp add: as_completed_def map_nth)
qed

lemma first_program_in_range:
  "first_program_in ps s \<in> set (ps @ [''Others''])"
  by (induction ps) auto

lemma get_program_name_range: "get_program_name p \<in> set (KNOWN_PROGRAMS @ [''Others''])"
  unfolding get_program_name_def by (rule first_program_in_range)

lemma has_fields_lookup:
  "has_fields c \<Longrightarrow>
   \<exists>imp tier why. map_of c ''important'' = Some imp \<and> map_of c ''importance'' = Some tier
     \<and> map_of c ''reason'' = Some why"
proof -
  assume "has_fields c"
  then have "''important'' \<in> fst ` set c" "''importance'' \<in> fst ` set c" "''reason'' \<in> fst ` set c"
    by (simp_all add: has_fields_def REQUIRED_def)
  then show ?thesis
    by (metis map_of_eq_None_iff not_Some_eq)
qed

lemma aggregate_step_closed:
  assumes "has_fields (snd r)" and "programs_present st"
  shows "\<exists>st'. aggregate_step st r = Some st' \<and> programs_present st'
     \<and> processed st' = processed st + 1
     \<and> to_delete st' = to_delete st @ (if retained r then [attach r] else [])
     \<and> (\<forall>p. bucket st' p = bucket st p @
           (if retained r \<and> get_program_name (path (fst r)) = p then [attach r] else []))"
proof -
  obtain metadata c where r: "r = (metadata, c)" by (cases r)
  from has_fields_lookup [OF assms(1)] r obtain imp tier why where
    f: "map_of c ''important'' = Some imp" "map_of c ''importance'' = Some tier"
       "map_of c ''reason'' = Some why"
    by auto
  from assms(2) get_program_name_range [of "path metadata"]
  have "get_program_name (path metadata) \<in> fst ` set (program_files st)"
    unfolding programs_present_def by blast
  then obtain b where b: "map_of (program_files st) (get_program_name (path metadata)) = Some b"
    by (metis map_of_eq_None_iff not_Some_eq)
  show ?thesis
  proof (cases "truthy imp")
    case True
    with r f assms(2) show ?thesis
      by (simp add: aggregate_step_def retained_def programs_present_def bucket_def)
  next
    case False
    with r f b assms(2) show ?thesis
      by (auto simp: aggregate_step_def retained_def programs_present_def bucket_def
          attach_def update_conv' dom_update Let_def)
  qed
qed

lemma aggregate_closed:
  assumes "\<forall>r\<in>set rs. has_fields (snd r)" and "programs_present st"
  shows "\<exists>st'. aggregate st (map Some rs) = Some st' \<and> programs_present st'
     \<and> processed st' = processed st + length rs
     \<and> to_delete st' = to_delete st @ map attach (filter retained rs)
     \<and> (\<forall>p. bucket st' p = bucket st p @
           map attach (filter (\<lambda>r. retained r \<and> get_program_name (path (fst r)) = p) rs))"
  using assms
proof (induction rs arbitrary: st)
  case Nil
  then show ?case by simp
next
  case (Cons r rs)
  from Cons.prems have "has_fields (snd r)" by simp
  from aggregate_step_closed [OF this Cons.prems(2)] obtain st1 where
    s1: "aggregate_step st r = Some st1" "programs_present st1"
      "processed st1 = processed st + 1"
      "to_delete st1 = to_delete st @ (if retained r then [attach r] else [])"
      "\<forall>p. bucket st1 p = bucket st p @
           (if retained r \<and> get_program_name (path (fst r)) = p then [attach r] else [])"
    by blast
  from Cons.prems have "\<forall>r\<in>set rs. has_fields (snd r)" by simp
  from Cons.IH [OF this s1(2)] obtain st2 where
    s2: "aggregate st1 (map Some rs) = Some st2" "programs_present st2"
      "processed st2 = processed st1 + length rs"
      "to_delete st2 = to_delete st1 @ map attach (filter retained rs)"
      "\<forall>p. bucket st2 p = bucket st1 p @
           map attach (filter (\<lambda>r. retained r \<and> get_program_name (path (fst r)) = p) rs)"
    by blast
  from s1 s2 show ?case by simp
qed

lemma initial_agg_programs_present: "programs_present initial_agg"
  by (simp add: programs_present_def initial_agg_def KNOWN_PROGRAMS_def)

lemma initial_agg_bucket: "bucket initial_agg p = []"
  by (simp add: bucket_def initial_agg_def KNOWN_PROGRAMS_def)

lemma classify_attempts_thread_independent:
  "snd (classify_attempts t oracle as) = snd (classify_attempts t' oracle as)"
proof (induction as)
  case Nil
  show ?case by simp
next
  case (Cons a as)
  then show ?case
    by (cases "oracle a") (auto simp: split_beta split: sum.splits)
qed

lemma returned_pairs_thread_independent:
  "returned_pairs n oracles files = returned_pairs n' oracles files"
proof (rule nth_equalityI)
  show "length (returned_pairs n oracles files) = length (returned_pairs n' oracles files)"
    by (simp add: returned_pairs_length)
next
  fix i assume "i < length (returned_pairs n oracles files)"
  then have "i < length files" by (simp add: returned_pairs_length)
  then show "returned_pairs n oracles files ! i = returned_pairs n' oracles files ! i"
    using classify_attempts_thread_independent [of "i mod n + 1" "oracles i" "[0..<3]" "i mod n' + 1"]
    by (simp add: returned_pairs_nth)
qed

lemma initial_agg_fields: "to_delete initial_agg = []" "processed initial_agg = 0"
  by (simp_all add: initial_agg_def)

lemma worker_pool_length: "length (worker_pool e n oracles files) = length files"
  by (simp add: worker_pool_def)

lemma worker_pool_nth:
  "i < length files \<Longrightarrow>
   worker_pool e n oracles files ! i =
     (if ready e (i mod n + 1) then Some (returned_pairs n oracles files ! i) else None)"
  by (auto simp: worker_pool_def returned_pairs_def classify_file_with_openai_def ready_def
      nth_enumerate_eq split_beta)

lemma worker_pool_ready:
  assumes "pool_ready e n (length files)"
  shows "worker_pool e n oracles files = map Some (returned_pairs n oracles files)"
proof (rule nth_equalityI)
  show "length (worker_pool e n oracles files) = length (map Some (returned_pairs n oracles files))"
    by (simp add: worker_pool_length returned_pairs_length)
next
  fix i assume "i < length (worker_pool e n oracles files)"
  then have i: "i < length files" by (simp add: worker_pool_length)
  with assms have "ready e (i mod n + 1)"
    by (simp add: pool_ready_def list_all_iff)
  with i show "worker_pool e n oracles files ! i = map Some (returned_pairs n oracles files) ! i"
    by (simp add: worker_pool_nth returned_pairs_length)
qed

lemma aggregate_no_exception: "aggregate st futures = Some st' \<Longrightarrow> None \<notin> set futures"
  by (induction futures arbitrary: st) (auto split: option.splits)

lemma as_completed_set:
  "mset order = mset [0..<length futures] \<Longrightarrow> set (as_completed order futures) = set futures"
  by (rule mset_eq_setD) (rule as_completed_mset)

lemma as_completed_map:
  assumes "mset order = mset [0..<length xs]"
  shows "as_completed order (map f xs) = map f (as_completed order xs)"
proof -
  from assms have "set order = {0..<length xs}"
    by (metis mset_eq_setD set_upt)
  then show ?thesis
    by (auto simp: as_completed_def)
qed

lemma classify_all_pool_ready:
  assumes "mset order = mset [0..<length files]"
    and "classify_all e n oracles order files = Some st"
  shows "pool_ready e n (length files)"
proof -
  from assms(1) have "set (as_completed order (worker_pool e n oracles files)) =
      set (worker_pool e n oracles files)"
    by (intro as_completed_set) (simp add: worker_pool_length)
  with aggregate_no_exception [OF assms(2) [unfolded classify_all_def]]
  have none: "None \<notin> set (worker_pool e n oracles files)" by simp
  have "ready e (i mod n + 1)" if "i < length files" for i
  proof (rule ccontr)
    assume "\<not> ready e (i mod n + 1)"
    with that have "worker_pool e n oracles files ! i = None"
      by (simp add: worker_pool_nth)
    with that none show False
      by (metis nth_mem worker_pool_length)
  qed
  then show ?thesis
    by (simp add: pool_ready_def list_all_iff)
qed

lemma classify_all_closed:
  assumes "mset order = mset [0..<length files]" and "pool_ready e n (length files)"
  shows "\<exists>st. classify_all e n oracles order files = Some st
     \<and> processed st = length files
     \<and> to_delete st =
         map attach (filter retained (as_completed order (returned_pairs n oracles files)))
     \<and> (\<forall>p. bucket st p =
           map attach (filter (\<lambda>r. retained r \<and> get_program_name (path (fst r)) = p)
             (as_completed order (returned_pairs n oracles files))))"
proof -
  let ?rs = "as_completed order (returned_pairs n oracles files)"
  from assms(1) have perm: "mset order = mset [0..<length (returned_pairs n oracles files)]"
    by (simp add: returned_pairs_length)
  have fut: "as_completed order (worker_pool e n oracles files) = map Some ?rs"
    unfolding worker_pool_ready [OF assms(2)] by (rule as_completed_map [OF perm])
  from perm have m: "mset ?rs = mset (returned_pairs n oracles files)"
    by (rule as_completed_mset)
  then have "set ?rs = set (returned_pairs n oracles files)"
    by (rule mset_eq_setD)
  then have wf: "\<forall>r\<in>set ?rs. has_fields (snd r)"
    using returned_pairs_has_fields by blast
  have len: "length ?rs = length files"
    using m returned_pairs_length [of n oracles files] by (metis size_mset)
  from aggregate_closed [OF wf initial_agg_programs_present] len show ?thesis
    by (auto simp: classify_all_def fut initial_agg_bucket initial_agg_fields)
qed

lemma failing_pair:
  assumes "i < length files" and "invocation_fails (oracles i)"
  shows "is_fail_safe (snd (returned_pairs n oracles files ! i))"
  using assms by (simp add: returned_pairs_nth invocation_fails_def fails_from_fail_safe)

theorem worker_pool_counterexample:
  "worker_pool (example_env\<lparr>OPENAI_API_KEY := None\<rparr>) 4 example_oracles example_batch =
     [None, None, None]
   \<and> classify_all (example_env\<lparr>OPENAI_API_KEY := None\<rparr>) 4 example_oracles [2, 0, 1]
        example_batch = None"
  by (simp add: classify_all_def as_completed_def worker_pool_def example_batch_def
      classify_file_with_openai_def upt_rec)

text \<open>
  C1, for a pool whose invocations can all set up their logger and client.  For a batch of
  N records, whatever the oracle does for each of them and in whatever order the futures
  complete (\<open>order\<close> a permutation of the submitted indices), every future holds a pair and
  the loop receives N pairs: as many as the records, their records being the input records
  (each once, as a multiset); the future of record \<open>i\<close> holds record \<open>i\<close> with a
  classification, which is the fail-safe when the invocation errors or exhausts its
  retries; and the aggregation loop consumes all N pairs without an exception.
\<close>

theorem worker_pool_complete:
  assumes "mset order = mset [0..<length files]" and "0 < num_threads"
    and "pool_ready e num_threads (length files)"
  shows "\<exists>rs. as_completed order (worker_pool e num_threads oracles files) = map Some rs
    \<and> length rs = length files
    \<and> mset (map fst rs) = mset files
    \<and> (\<forall>i<length files. \<exists>c.
          worker_pool e num_threads oracles files ! i = Some (files ! i, c)
          \<and> (invocation_fails (oracles i) \<longrightarrow> is_fail_safe c))
    \<and> (\<exists>st. classify_all e num_threads oracles order files = Some st
          \<and> processed st = length files)"
proof -
  let ?rp = "returned_pairs num_threads oracles files"
  let ?rs = "as_completed order ?rp"
  from assms(1) have perm: "mset order = mset [0..<length ?rp]"
    by (simp add: returned_pairs_length)
  have fut: "as_completed order (worker_pool e num_threads oracles files) = map Some ?rs"
    unfolding worker_pool_ready [OF assms(3)] by (rule as_completed_map [OF perm])
  from perm have m: "mset ?rs = mset ?rp"
    by (rule as_completed_mset)
  then have "length ?rs = length ?rp"
    by (metis size_mset)
  then have a: "length ?rs = length files"
    by (simp add: returned_pairs_length)
  from m have "mset (map fst ?rs) = mset (map fst ?rp)"
    by (metis mset_map)
  then have b: "mset (map fst ?rs) = mset files"
    by (simp add: returned_pairs_records)
  have c: "\<exists>c. worker_pool e num_threads oracles files ! i = Some (files ! i, c)
      \<and> (invocation_fails (oracles i) \<longrightarrow> is_fail_safe c)" if "i < length files" for i
  proof -
    from that have "worker_pool e num_threads oracles files ! i = Some (?rp ! i)"
      by (simp add: worker_pool_ready [OF assms(3)] returned_pairs_length)
    moreover from that have "fst (?rp ! i) = files ! i"
      by (simp add: returned_pairs_nth)
    ultimately show ?thesis
      using failing_pair [OF that, of oracles num_threads]
      by (intro exI [of _ "snd (?rp ! i)"]) (simp add: prod_eq_iff)
  qed
  from classify_all_closed [OF assms(1,3), of oracles]
  have d: "\<exists>st. classify_all e num_threads oracles order files = Some st
      \<and> processed st = length files"
    by blast
  from fut a b c d show ?thesis
    by (intro exI [of _ ?rs] conjI allI impI)
qed

theorem worker_pool_complete_witness:
  "\<exists>rs. as_completed [2, 0, 1] (worker_pool example_env 4 example_oracles example_batch) =
        map Some rs
    \<and> length rs = 3
    \<and> mset (map fst rs) = mset example_batch
    \<and> invocation_fails (example_oracles 1)
    \<and> (\<exists>c. worker_pool example_env 4 example_oracles example_batch ! 1 =
           Some (example_batch ! 1, c) \<and> is_fail_safe c)
    \<and> (\<exists>st. classify_all example_env 4 example_oracles [2, 0, 1] example_batch = Some st
          \<and> processed st = 3)"
proof -
  have len: "length example_batch = 3"
    by (simp add: example_batch_def)
  have perm: "mset [2, 0, 1] = mset [0..<length example_batch]"
    by (simp add: len upt_rec)
  have n: "(0::nat) < 4" by simp
  have rdy: "pool_ready example_env 4 (length example_batch)"
    by (simp add: pool_ready_def ready_def example_env_def list_all_iff)
  have fails: "invocation_fails (example_oracles 1)"
    by (simp add: invocation_fails_def example_oracles_def upt_rec)
  from worker_pool_complete [OF perm n rdy, of example_oracles] obtain rs where
    rs: "as_completed [2, 0, 1] (worker_pool example_env 4 example_oracles example_batch) =
          map Some rs" "length rs = length example_batch"
        "mset (map fst rs) = mset example_batch" and
    each: "\<forall>i<length example_batch. \<exists>c.
          worker_pool example_env 4 example_oracles example_batch ! i =
            Some (example_batch ! i, c)
          \<and> (invocation_fails (example_oracles i) \<longrightarrow> is_fail_safe c)" and
    st: "\<exists>st. classify_all example_env 4 example_oracles [2, 0, 1] example_batch = Some st
          \<and> processed st = length example_batch"
    by blast
  from each fails len have one: "\<exists>c. worker_pool example_env 4 example_oracles example_batch ! 1 =
           Some (example_batch ! 1, c) \<and> is_fail_safe c"
    by (metis One_nat_def Suc_1 lessI less_SucI numeral_3_eq_3)
  from rs st one fails len show ?thesis
    by (intro exI [of _ rs] conjI) simp_all
qed

section \<open>Order independence of the aggregator\<close>

lemma bucket_mset:
  assumes "mset order = mset [0..<length files]"
    and "classify_all e n oracles order files = Some st"
  shows "mset (bucket st p) =
     image_mset attach
       (filter_mset (\<lambda>r. retained r \<and> get_program_name (path (fst r)) = p)
          (mset (returned_pairs n oracles files)))"
proof -
  note rdy = classify_all_pool_ready [OF assms]
  from classify_all_closed [OF assms(1) rdy, of oracles] assms(2)
  have "bucket st p =
      map attach (filter (\<lambda>r. retained r \<and> get_program_name (path (fst r)) = p)
        (as_completed order (returned_pairs n oracles files)))"
    by auto
  then have "mset (bucket st p) =
      image_mset attach (filter_mset (\<lambda>r. retained r \<and> get_program_name (path (fst r)) = p)
        (mset (as_completed order (returned_pairs n oracles files))))"
    by simp
  with assms(1) show ?thesis
    by (simp add: as_completed_mset returned_pairs_length)
qed

lemma bucket_set:
  assumes "mset order = mset [0..<length files]"
    and "classify_all e n oracles order files = Some st"
  shows "set (bucket st p) =
     attach ` {r \<in> set (returned_pairs n oracles files).
                 retained r \<and> get_program_name (path (fst r)) = p}"
proof -
  have "set (bucket st p) = set_mset (mset (bucket st p))" by simp
  also have "\<dots> = attach ` {r \<in> set (returned_pairs n oracles files).
                 retained r \<and> get_program_name (path (fst r)) = p}"
    unfolding bucket_mset [OF assms] by auto
  finally show ?thesis .
qed

lemma get_program_name_attributed:
  "get_program_name file_path = program \<longleftrightarrow> attributed program file_path"
  by (auto simp: get_program_name_def KNOWN_PROGRAMS_def attributed_def lower_def)

lemma retained_iff:
  "retained r \<longleftrightarrow> (\<exists>imp. map_of (snd r) ''important'' = Some imp \<and> \<not> truthy imp)"
  by (simp add: retained_def split: option.splits)

theorem membership_counterexample:
  "classify_all example_env 4 null_oracles [0] [both_names_record] =
     Some \<lparr>to_delete =
              [both_names_record\<lparr>importance := Some (JStr ''Low''),
                                  reason := Some (JStr ''log'')\<rparr>],
           program_files =
              [(''Android Studio'',
                 [both_names_record\<lparr>importance := Some (JStr ''Low''),
                                     reason := Some (JStr ''log'')\<rparr>]),
               (''Transporter'', []), (''Others'', [])],
           total_size = 20480, processed = 1\<rparr>
   \<and> worker_pool example_env 4 null_oracles [both_names_record] =
       [Some (both_names_record,
          [(''important'', JNull), (''importance'', JStr ''Low''), (''reason'', JStr ''log'')])]
   \<and> JNull \<noteq> JBool False
   \<and> sublist (lower ''Transporter'') (lower (path both_names_record))"
  by (simp add: classify_all_def as_completed_def worker_pool_def classify_file_with_openai_def
      null_oracles_def both_names_record_def example_record_def example_env_def
      initial_agg_def aggregate_step_def get_program_name_def KNOWN_PROGRAMS_def lower_def
      REQUIRED_def TIERS_def upt_rec sublist_code Let_def)

text \<open>
  C5, with membership as the code decides it.  Run the same batch twice, with any two worker
  counts of at least one and any two completion orders (permutations of the submitted
  indices), every invocation being able to set up its logger and client and the oracle
  answering each record the same way.  Both runs finish, and for every program the two
  buckets hold the same records (as sets, and even as multisets): exactly the stored forms
  of the pairs held by the futures whose \<open>important\<close> field is falsy and whose path is
  attributed to that program, that is, names it (case ignored) and names no known program
  before it in the list; Others holds those that name none.
\<close>

theorem aggregation_order_independent:
  assumes "mset order1 = mset [0..<length files]" and "mset order2 = mset [0..<length files]"
    and "0 < n1" and "0 < n2"
    and "pool_ready e n1 (length files)" and "pool_ready e n2 (length files)"
  shows "\<exists>st1 st2.
      classify_all e n1 oracles order1 files = Some st1
    \<and> classify_all e n2 oracles order2 files = Some st2
    \<and> (\<forall>program.
          set (bucket st1 program) = set (bucket st2 program)
        \<and> mset (bucket st1 program) = mset (bucket st2 program)
        \<and> set (bucket st1 program) =
            attach ` {r. Some r \<in> set (worker_pool e n1 oracles files)
                        \<and> (\<exists>imp. map_of (snd r) ''important'' = Some imp \<and> \<not> truthy imp)
                        \<and> attributed program (path (fst r))})"
proof -
  from classify_all_closed [OF assms(1,5), of oracles] obtain st1 where
    st1: "classify_all e n1 oracles order1 files = Some st1" by blast
  from classify_all_closed [OF assms(2,6), of oracles] obtain st2 where
    st2: "classify_all e n2 oracles order2 files = Some st2" by blast
  have same: "returned_pairs n2 oracles files = returned_pairs n1 oracles files"
    by (rule returned_pairs_thread_independent)
  have "mset (bucket st1 p) = mset (bucket st2 p)" for p
    using bucket_mset [OF assms(1) st1, of p] bucket_mset [OF assms(2) st2, of p] same
    by simp
  moreover have "set (bucket st1 p) = set (bucket st2 p)" for p
    using bucket_set [OF assms(1) st1, of p] bucket_set [OF assms(2) st2, of p] same
    by simp
  moreover have "set (bucket st1 p) =
      attach ` {r. Some r \<in> set (worker_pool e n1 oracles files)
                  \<and> (\<exists>imp. map_of (snd r) ''important'' = Some imp \<and> \<not> truthy imp)
                  \<and> attributed p (path (fst r))}" for p
  proof -
    have "{r \<in> set (returned_pairs n1 oracles files).
             retained r \<and> get_program_name (path (fst r)) = p} =
          {r. Some r \<in> set (worker_pool e n1 oracles files)
                  \<and> (\<exists>imp. map_of (snd r) ''important'' = Some imp \<and> \<not> truthy imp)
                  \<and> attributed p (path (fst r))}"
      unfolding worker_pool_ready [OF assms(5)]
      by (auto simp: retained_iff get_program_name_attributed)
    with bucket_set [OF assms(1) st1, of p] show ?thesis by simp
  qed
  ultimately show ?thesis
    using st1 st2 by (intro exI [of _ st1] exI [of _ st2] conjI allI)
qed

theorem aggregation_order_independent_witness:
  "\<exists>st1 st2.
      classify_all example_env 4 boolean_oracles [2, 0, 1] example_batch = Some st1
    \<and> classify_all example_env 1 boolean_oracles [0, 1, 2] example_batch = Some st2
    \<and> set (bucket st1 ''Android Studio'') = set (bucket st2 ''Android Studio'')
    \<and> mset (bucket st1 ''Others'') = mset (bucket st2 ''Others'')
    \<and> attach (example_batch ! 0,
         [(''important'', JBool False), (''importance'', JStr ''Low''), (''reason'', JStr ''cache'')])
        \<in> set (bucket st1 ''Android Studio'')"
proof -
  have len: "length example_batch = 3"
    by (simp add: example_batch_def)
  have p1: "mset [2, 0, 1] = mset [0..<length example_batch]"
    by (simp add: len upt_rec)
  have p2: "mset [0, 1, 2] = mset [0..<length example_batch]"
    by (simp add: len upt_rec)
  have n: "0 < (4::nat)" "0 < (1::nat)" by simp_all
  have rdy: "pool_ready example_env 4 (length example_batch)"
      "pool_ready example_env 1 (length example_batch)"
    by (simp_all add: pool_ready_def ready_def example_env_def list_all_iff)
  from aggregation_order_independent [OF p1 p2 n rdy, of boolean_oracles]
  obtain st1 st2 where
    r1: "classify_all example_env 4 boolean_oracles [2, 0, 1] example_batch = Some st1" and
    r2: "classify_all example_env 1 boolean_oracles [0, 1, 2] example_batch = Some st2" and
    all: "\<And>program.
          set (bucket st1 program) = set (bucket st2 program)
        \<and> mset (bucket st1 program) = mset (bucket st2 program)
        \<and> set (bucket st1 program) =
            attach ` {r. Some r \<in> set (worker_pool example_env 4 boolean_oracles example_batch)
                        \<and> (\<exists>imp. map_of (snd r) ''important'' = Some imp \<and> \<not> truthy imp)
                        \<and> attributed program (path (fst r))}"
    by blast
  have pool: "Some (example_batch ! 0,
         [(''important'', JBool False), (''importance'', JStr ''Low''), (''reason'', JStr ''cache'')])
      \<in> set (worker_pool example_env 4 boolean_oracles example_batch)"
    by (simp add: worker_pool_def example_batch_def boolean_oracles_def example_env_def
        classify_file_with_openai_def upt_rec REQUIRED_def TIERS_def)
  have att: "attributed ''Android Studio'' (path (example_batch ! 0))"
    by (simp add: attributed_def example_batch_def lower_def sublist_code)
  have "attach (example_batch ! 0,
         [(''important'', JBool False), (''importance'', JStr ''Low''), (''reason'', JStr ''cache'')])
      \<in> attach ` {r. Some r \<in> set (worker_pool example_env 4 boolean_oracles example_batch)
                        \<and> (\<exists>imp. map_of (snd r) ''important'' = Some imp \<and> \<not> truthy imp)
                        \<and> attributed ''Android Studio'' (path (fst r))}"
    using pool att by (intro imageI) simp
  then have m: "attach (example_batch ! 0,
         [(''important'', JBool False), (''importance'', JStr ''Low''), (''reason'', JStr ''cache'')])
      \<in> set (bucket st1 ''Android Studio'')"
    using all [of "''Android Studio''", THEN conjunct2, THEN conjunct2] by simp
  show ?thesis
    by (rule exI [of _ st1], rule exI [of _ st2])
      (intro conjI r1 r2 m all [of "''Android Studio''", THEN conjunct1]
        all [of "''Others''", THEN conjunct2, THEN conjunct1])
qed

section \<open>Retention is decided by truthiness\<close>

lemma well_formed_important_kept:
  assumes "k < 3" and "\<forall>j<k. oracle j = RateLimitError"
    and "oracle k = Loaded (JObj kvs)" and "well_formed (JObj kvs)"
  shows "map_of (snd (classify_attempts t oracle [0..<3])) ''important'' = map_of kvs ''important''"
proof -
  have le: "k \<le> 3" using assms(1) by simp
  have run: "snd (classify_attempts t oracle [0..<3]) =
      snd (classify_attempts t oracle (k # [Suc k..<3]))"
    using classify_after_rate_limits [OF le assms(2), of t] assms(1)
    by (simp add: upt_conv_Cons)
  from inspect_well_formed [OF assms(4)] assms(3)
  have "snd (classify_attempts t oracle (k # [Suc k..<3])) = kvs
      \<or> snd (classify_attempts t oracle (k # [Suc k..<3])) =
          AList.update ''importance'' (JStr ''Medium'') kvs"
    by auto
  then show ?thesis
    unfolding run by (auto simp: update_conv')
qed

lemma attach_path: "path (attach r) = path (fst r)"
  by (simp add: attach_def)

lemma retained_path_unique:
  assumes "distinct (map path files)" and "i < length files"
  shows "(\<exists>r\<in>set (returned_pairs n oracles files). retained r \<and> path (fst r) = path (files ! i))
     \<longleftrightarrow> retained (returned_pairs n oracles files ! i)"
proof
  assume "\<exists>r\<in>set (returned_pairs n oracles files). retained r \<and> path (fst r) = path (files ! i)"
  then obtain j where j: "j < length files" "retained (returned_pairs n oracles files ! j)"
      "path (fst (returned_pairs n oracles files ! j)) = path (files ! i)"
    by (auto simp: in_set_conv_nth returned_pairs_length)
  from j(1,3) have "map path files ! j = map path files ! i"
    using assms(2) by (simp add: returned_pairs_nth)
  moreover have "j < length (map path files)" "i < length (map path files)"
    using j(1) assms(2) by simp_all
  ultimately have "j = i"
    using nth_eq_iff_index_eq [OF assms(1)] by blast
  with j(2) show "retained (returned_pairs n oracles files ! i)" by simp
next
  assume r: "retained (returned_pairs n oracles files ! i)"
  have "returned_pairs n oracles files ! i \<in> set (returned_pairs n oracles files)"
    using assms(2) by (simp add: returned_pairs_length)
  moreover have "path (fst (returned_pairs n oracles files ! i)) = path (files ! i)"
    using assms(2) by (simp add: returned_pairs_nth)
  ultimately show "\<exists>r\<in>set (returned_pairs n oracles files).
      retained r \<and> path (fst r) = path (files ! i)"
    using r by blast
qed

text \<open>
  C10.  Let every invocation be able to set up its logger and client, and let record \<open>i\<close>
  of a batch of records with distinct paths be answered (after fewer than three rate limits)
  by an object that has the three required fields, with any JSON value \<open>imp\<close> under
  \<open>important\<close>.  Then, in whatever order the futures complete, the
  record ends up in a bucket of the program mapping if and only if \<open>imp\<close> is falsy.  No
  type check is made: False, 0, the empty string and null are falsy and lead to retention;
  the string "false" is truthy and leads to the record being discarded.
\<close>

theorem retained_iff_falsy:
  assumes "mset order = mset [0..<length files]" and "distinct (map path files)"
    and "0 < n" and "pool_ready e n (length files)" and "i < length files"
    and "k < 3" and "\<forall>j<k. oracles i j = RateLimitError"
    and "oracles i k = Loaded (JObj kvs)" and "well_formed (JObj kvs)"
    and "map_of kvs ''important'' = Some imp"
  shows "\<exists>st. classify_all e n oracles order files = Some st
     \<and> ((\<exists>program. \<exists>m\<in>set (bucket st program). path m = path (files ! i)) \<longleftrightarrow> \<not> truthy imp)
     \<and> \<not> truthy (JBool False) \<and> \<not> truthy (JInt 0) \<and> \<not> truthy (JStr '''') \<and> \<not> truthy JNull
     \<and> truthy (JStr ''false'')"
proof -
  from classify_all_closed [OF assms(1,4), of oracles] obtain st where
    st: "classify_all e n oracles order files = Some st" by blast
  let ?wp = "returned_pairs n oracles files"
  have "map_of (snd (?wp ! i)) ''important'' = Some imp"
    using well_formed_important_kept [OF assms(6) assms(7) assms(8) assms(9)] assms(5) assms(10)
    by (simp add: returned_pairs_nth)
  then have ret: "retained (?wp ! i) \<longleftrightarrow> \<not> truthy imp"
    by (simp add: retained_def)
  have "(\<exists>program. \<exists>m\<in>set (bucket st program). path m = path (files ! i)) \<longleftrightarrow>
      (\<exists>r\<in>set ?wp. retained r \<and> path (fst r) = path (files ! i))"
    unfolding bucket_set [OF assms(1) st] by (fastforce simp: attach_path)
  also have "\<dots> \<longleftrightarrow> retained (?wp ! i)"
    by (rule retained_path_unique [OF assms(2) assms(5)])
  finally have "(\<exists>program. \<exists>m\<in>set (bucket st program). path m = path (files ! i))
      \<longleftrightarrow> \<not> truthy imp"
    using ret by simp
  with st show ?thesis by simp
qed

theorem retained_iff_falsy_witness:
  "\<exists>st. classify_all example_env 4 example_oracles [2, 0, 1] example_batch = Some st
     \<and> (\<exists>program. \<exists>m\<in>set (bucket st program). path m = path (example_batch ! 2))"
proof -
  have len: "length example_batch = 3"
    by (simp add: example_batch_def)
  have perm: "mset [2, 0, 1] = mset [0..<length example_batch]"
    by (simp add: len upt_rec)
  have d: "distinct (map path example_batch)"
    by (simp add: example_batch_def)
  have i: "2 < length example_batch"
    by (simp add: len)
  have k: "(0::nat) < 3" and n: "(0::nat) < 4" by simp_all
  have rdy: "pool_ready example_env 4 (length example_batch)"
    by (simp add: pool_ready_def ready_def example_env_def list_all_iff)
  have rl: "\<forall>j<0. example_oracles 2 j = RateLimitError" by simp
  have o: "example_oracles 2 0 =
      Loaded (JObj [(''important'', JInt 0), (''importance'', JStr ''Huge''),
                    (''reason'', JStr ''blob'')])"
    by (simp add: example_oracles_def)
  have wf: "well_formed (JObj [(''important'', JInt 0), (''importance'', JStr ''Huge''),
                    (''reason'', JStr ''blob'')])"
    by (simp add: REQUIRED_def)
  have imp: "map_of [(''important'', JInt 0), (''importance'', JStr ''Huge''),
                    (''reason'', JStr ''blob'')] ''important'' = Some (JInt 0)"
    by simp
  from retained_iff_falsy [where order = "[2, 0, 1]" and files = example_batch and n = 4
      and i = 2 and k = 0 and oracles = example_oracles and imp = "JInt 0" and e = example_env
      and kvs = "[(''important'', JInt 0), (''importance'', JStr ''Huge''),
                  (''reason'', JStr ''blob'')]"]
    perm d n rdy i k rl o wf imp
  show ?thesis
    by simp
qed

section \<open>Selection planner\<close>

lemma files_in_levels_filter:
  "files_in_levels levels files = Some chosen \<Longrightarrow>
   chosen = filter (\<lambda>file. importance file \<in> set (map (\<lambda>l. Some (JStr l)) levels)) files"
proof (induction files arbitrary: chosen)
  case Nil
  then show ?case by simp
next
  case (Cons f files)
  then show ?case
    by (auto split: option.splits if_splits)
qed

lemma files_in_levels_total:
  "list_all (\<lambda>file. importance file \<noteq> None \<and> reason file \<noteq> None) files \<Longrightarrow>
   \<exists>chosen. files_in_levels levels files = Some chosen"
  by (induction files) auto

lemma in_set_not_Nil:
  "x \<in> set xs \<Longrightarrow> xs \<noteq> []"
  by auto

lemma read_programs_to_keep_answer:
  assumes "keep_answer valid line"
  shows "read_programs_to_keep valid (line # stdin) = Some (filter (keeps line) valid, stdin)"
proof -
  let ?r = "lower (strip line)"
  consider (none) "?r = ''none''" | (all) "?r \<noteq> ''none''" "?r = ''all''"
    | (named) "?r \<noteq> ''none''" "?r \<noteq> ''all''"
    by blast
  then show ?thesis
  proof cases
    case none
    then show ?thesis by (simp add: keeps_def answer_def)
  next
    case all
    then show ?thesis by (simp add: keeps_def answer_def)
  next
    case named
    let ?named = "filter (\<lambda>p. p \<in> set (map lower valid)) (map strip (split_on CHR '','' ?r))"
    from named assms obtain p where "p \<in> set valid" "lower p \<in> set (entries line)"
      by (auto simp: keep_answer_def keeps_def answer_def list_ex_iff)
    then have "lower p \<in> set ?named"
      by (auto simp: entries_def answer_def)
    then have ne: "?named \<noteq> []"
      by (rule in_set_not_Nil)
    have "filter (\<lambda>vp. lower vp \<in> set ?named) valid = filter (keeps line) valid"
      by (rule filter_cong) (use named in \<open>auto simp: keeps_def entries_def answer_def\<close>)
    with ne named show ?thesis
      by (simp add: Let_def)
  qed
qed

lemma read_levels_to_delete_answer:
  assumes "tier_answer line"
  shows "\<exists>levels. read_levels_to_delete (line # stdin) = Some (levels, stdin)
     \<and> set levels = {tier. deletes line tier}"
proof -
  let ?r = "lower (strip line)"
  consider (none) "?r = ''none''" | (all) "?r \<noteq> ''none''" "?r = ''all''"
    | (named) "?r \<noteq> ''none''" "?r \<noteq> ''all''"
    by blast
  then show ?thesis
  proof cases
    case none
    then show ?thesis by (simp add: deletes_def answer_def)
  next
    case all
    then show ?thesis by (auto simp: deletes_def answer_def)
  next
    case named
    let ?levels = "filter (\<lambda>l. l \<in> set LEVELS)
        (map (\<lambda>l. capitalize (strip l)) (split_on CHR '','' ?r))"
    from named assms obtain tier where "deletes line tier"
      by (auto simp: tier_answer_def answer_def list_ex_iff)
    moreover have s: "set ?levels = {tier. deletes line tier}"
      using named by (auto simp: deletes_def entries_def answer_def)
    ultimately have "tier \<in> set ?levels"
      by simp
    then have "?levels \<noteq> []"
      by (rule in_set_not_Nil)
    with named s show ?thesis
      by (simp add: Let_def)
  qed
qed

lemma read_programs_to_keep_rejected:
  assumes "list_all (\<lambda>line. \<not> keep_answer valid line) rejected"
  shows "read_programs_to_keep valid (rejected @ stdin) = read_programs_to_keep valid stdin"
  using assms
proof (induction rejected)
  case Nil
  show ?case by simp
next
  case (Cons line rejected)
  let ?r = "lower (strip line)"
  from Cons.prems have no: "\<not> keep_answer valid line"
    and rest: "list_all (\<lambda>line. \<not> keep_answer valid line) rejected"
    by simp_all
  from no have r: "?r \<noteq> ''none''" "?r \<noteq> ''all''"
    and none: "\<forall>p\<in>set valid. lower p \<notin> set (entries line)"
    by (auto simp: keep_answer_def keeps_def answer_def list_ex_iff)
  from none have "set (entries line) \<inter> lower ` set valid = {}"
    by blast
  then have "filter (\<lambda>p. p \<in> set (map lower valid)) (entries line) = []"
    by (auto simp: filter_empty_conv)
  then have "filter (\<lambda>p. p \<in> set (map lower valid)) (map strip (split_on CHR '','' ?r)) = []"
    by (simp only: entries_def answer_def)
  with r have "read_programs_to_keep valid (line # rejected @ stdin) =
      read_programs_to_keep valid (rejected @ stdin)"
    by (simp add: Let_def)
  with Cons.IH [OF rest] show ?case
    by simp
qed

lemma read_levels_to_delete_rejected:
  assumes "list_all (\<lambda>line. \<not> tier_answer line) rejected"
  shows "read_levels_to_delete (rejected @ stdin) = read_levels_to_delete stdin"
  using assms
proof (induction rejected)
  case Nil
  show ?case by simp
next
  case (Cons line rejected)
  let ?r = "lower (strip line)"
  from Cons.prems have no: "\<not> tier_answer line"
    and rest: "list_all (\<lambda>line. \<not> tier_answer line) rejected"
    by simp_all
  from no have r: "?r \<noteq> ''none''" "?r \<noteq> ''all''"
    and none: "\<forall>tier\<in>set LEVELS. \<not> deletes line tier"
    by (auto simp: tier_answer_def answer_def list_ex_iff)
  from none r have "filter (\<lambda>l. l \<in> set LEVELS)
      (map (\<lambda>l. capitalize (strip l)) (split_on CHR '','' ?r)) = []"
    by (auto simp: filter_empty_conv deletes_def entries_def answer_def)
  with r have "read_levels_to_delete (line # rejected @ stdin) =
      read_levels_to_delete (rejected @ stdin)"
    by (simp add: Let_def)
  with Cons.IH [OF rest] show ?case
    by simp
qed

lemma levels_selected_by:
  assumes "set levels = {tier. deletes line tier}"
  shows "filter (\<lambda>file. importance file \<in> set (map (\<lambda>l. Some (JStr l)) levels)) files =
     filter (selected_by line) files"
proof (rule filter_cong [OF refl])
  fix f :: file_record
  show "(importance f \<in> set (map (\<lambda>l. Some (JStr l)) levels)) = selected_by line f"
    using assms by (auto simp: selected_by_def split: option.splits json.splits)
qed

lemma select_files_answers:
  assumes "summary_ok groups" and "distinct (map fst groups)"
    and "length answers =
           length (filter (\<lambda>p. p \<notin> set keep) (programs_with_records groups))"
    and "list_all (\<lambda>(rejected, line).
           list_all (\<lambda>l. \<not> tier_answer l) rejected \<and> tier_answer line) answers"
  shows "\<exists>sel. select_files keep groups (typed answers @ rest) = Some sel
     \<and> stdin_left sel = rest \<and> programs_to_keep sel = keep
     \<and> to_move sel =
         concat (map (\<lambda>(program, files).
            if program \<in> set keep then []
            else (case map_of (zip (filter (\<lambda>p. p \<notin> set keep) (programs_with_records groups))
                                (map snd answers)) program of
                    None \<Rightarrow> []
                  | Some line \<Rightarrow> filter (selected_by line) files)) groups)"
  using assms
proof (induction groups arbitrary: answers)
  case Nil
  then show ?case by (simp add: programs_with_records_def typed_def)
next
  case (Cons g groups)
  obtain program files where g: "g = (program, files)" by (cases g)
  define asked where "asked = filter (\<lambda>p. p \<notin> set keep) (programs_with_records groups)"
  from Cons.prems(1) g have ok: "summary_ok groups"
    and fs: "list_all (\<lambda>file. importance file \<noteq> None \<and> reason file \<noteq> None) files"
    by (simp_all add: summary_ok_def)
  from Cons.prems(2) g have d: "distinct (map fst groups)" and fresh: "program \<notin> fst ` set groups"
    by auto
  show ?case
  proof (cases "files = [] \<or> program \<in> set keep")
    case True
    then have a: "filter (\<lambda>p. p \<notin> set keep) (programs_with_records (g # groups)) = asked"
      by (auto simp: g programs_with_records_def asked_def)
    from Cons.prems(3) have len: "length answers = length asked"
      unfolding a .
    from Cons.IH [OF ok d len [unfolded asked_def] Cons.prems(4)] obtain sel where
      s: "select_files keep groups (typed answers @ rest) = Some sel"
         "stdin_left sel = rest" "programs_to_keep sel = keep" and
      m: "to_move sel =
         concat (map (\<lambda>(program, files).
            if program \<in> set keep then []
            else (case map_of (zip asked (map snd answers)) program of
                    None \<Rightarrow> []
                  | Some line \<Rightarrow> filter (selected_by line) files)) groups)"
      unfolding asked_def by blast
    from True have head: "(if program \<in> set keep then []
        else (case map_of (zip asked (map snd answers)) program of
                None \<Rightarrow> []
              | Some line \<Rightarrow> filter (selected_by line) files)) = []"
      by (auto split: option.splits)
    from True s(1) have "select_files keep (g # groups) (typed answers @ rest) = Some sel"
      by (auto simp: g)
    moreover have "to_move sel =
         concat (map (\<lambda>(program, files).
            if program \<in> set keep then []
            else (case map_of (zip asked (map snd answers)) program of
                    None \<Rightarrow> []
                  | Some line \<Rightarrow> filter (selected_by line) files)) (g # groups))"
      unfolding list.map concat.simps m g using head by simp
    ultimately show ?thesis
      unfolding a using s(2,3) by blast
  next
    case False
    then have a: "filter (\<lambda>p. p \<notin> set keep) (programs_with_records (g # groups)) =
        program # asked"
      by (auto simp: g programs_with_records_def asked_def)
    from Cons.prems(3) obtain rejected l ls where tl: "answers = (rejected, l) # ls" and
      len: "length ls = length asked"
      unfolding a by (cases answers) auto
    from Cons.prems(4) tl have tl_ok: "tier_answer l"
      "list_all (\<lambda>(rejected, line).
         list_all (\<lambda>l. \<not> tier_answer l) rejected \<and> tier_answer line) ls"
      and rej: "list_all (\<lambda>l. \<not> tier_answer l) rejected"
      by simp_all
    have ty: "typed answers @ rest = rejected @ l # typed ls @ rest"
      by (simp add: tl typed_def)
    from read_levels_to_delete_answer [OF tl_ok(1), of "typed ls @ rest"] obtain levels where
      "read_levels_to_delete (l # typed ls @ rest) = Some (levels, typed ls @ rest)" and
      lv: "set levels = {tier. deletes l tier}"
      by blast
    with read_levels_to_delete_rejected [OF rej, of "l # typed ls @ rest"]
    have r: "read_levels_to_delete (typed answers @ rest) = Some (levels, typed ls @ rest)"
      unfolding ty by simp
    from files_in_levels_total [OF fs, of levels] obtain chosen where
      c: "files_in_levels levels files = Some chosen"
      by blast
    from files_in_levels_filter [OF c] levels_selected_by [OF lv, of files]
    have ch: "chosen = filter (selected_by l) files"
      by simp
    from Cons.IH [OF ok d len [unfolded asked_def] tl_ok(2)] obtain sel where
      s: "select_files keep groups (typed ls @ rest) = Some sel"
         "stdin_left sel = rest" "programs_to_keep sel = keep" and
      m: "to_move sel =
         concat (map (\<lambda>(program, files).
            if program \<in> set keep then []
            else (case map_of (zip asked (map snd ls)) program of
                    None \<Rightarrow> []
                  | Some line \<Rightarrow> filter (selected_by line) files)) groups)"
      unfolding asked_def by blast
    have tail: "map (\<lambda>(q, fs).
            if q \<in> set keep then []
            else (case map_of (zip (program # asked) (l # map snd ls)) q of
                    None \<Rightarrow> []
                  | Some line \<Rightarrow> filter (selected_by line) fs)) groups =
        map (\<lambda>(q, fs).
            if q \<in> set keep then []
            else (case map_of (zip asked (map snd ls)) q of
                    None \<Rightarrow> []
                  | Some line \<Rightarrow> filter (selected_by line) fs)) groups"
      by (rule map_cong [OF refl]) (use fresh in \<open>auto simp: image_iff\<close>)
    let ?sel = "sel\<lparr>to_move := chosen @ to_move sel,
                    levels_chosen := (program, levels) # levels_chosen sel\<rparr>"
    from False r c s(1) have "select_files keep (g # groups) (typed answers @ rest) = Some ?sel"
      by (simp add: g del: read_levels_to_delete.simps)
    moreover have "stdin_left ?sel = rest" "programs_to_keep ?sel = keep"
      using s(2,3) by simp_all
    moreover have "to_move ?sel =
         concat (map (\<lambda>(q, fs).
            if q \<in> set keep then []
            else (case map_of (zip (program # asked) (l # map snd ls)) q of
                    None \<Rightarrow> []
                  | Some line \<Rightarrow> filter (selected_by line) fs)) (g # groups))"
      using False unfolding list.map concat.simps tail
      by (simp add: g ch m)
    moreover have ms: "map snd answers = l # map snd ls"
      by (simp add: tl)
    ultimately show ?thesis
      unfolding a ms by blast
  qed
qed

lemma display_all_empty:
  assumes "programs_with_records groups = []"
  shows "display_and_filter_files groups stdin =
     Some \<lparr>to_move = [], programs_to_keep = [], levels_chosen = [], stdin_left = stdin\<rparr>"
proof -
  from assms have "list_all (\<lambda>(program, files). files = []) groups"
    by (auto simp: programs_with_records_def list_all_iff filter_empty_conv)
  then have "summary_ok groups"
    by (auto simp: summary_ok_def list_all_iff)
  with assms show ?thesis
    by (simp add: display_and_filter_files_def programs_with_records_def)
qed

lemma kept_programs:
  "filter (\<lambda>p. p \<notin> set (filter (keeps line) valid)) valid = filter (\<lambda>p. \<not> keeps line p) valid"
  by (rule filter_cong) auto

lemma operator_selection_member:
  "f \<in> set (operator_selection groups keep_line tier_lines) \<longleftrightarrow>
     (\<exists>program files line tier. (program, files) \<in> set groups \<and> f \<in> set files
        \<and> \<not> keeps keep_line program
        \<and> map_of (zip (asked_programs groups keep_line) tier_lines) program = Some line
        \<and> deletes line tier \<and> importance f = Some (JStr tier))"
proof -
  have sel: "selected_by line f \<longleftrightarrow>
      (\<exists>tier. deletes line tier \<and> importance f = Some (JStr tier))" for line
    by (auto simp: selected_by_def split: option.splits json.splits)
  have one: "f \<in> set (if keeps keep_line program then []
        else (case map_of (zip (asked_programs groups keep_line) tier_lines) program of
                None \<Rightarrow> []
              | Some line \<Rightarrow> filter (selected_by line) files)) \<longleftrightarrow>
      (\<exists>line tier. f \<in> set files \<and> \<not> keeps keep_line program
         \<and> map_of (zip (asked_programs groups keep_line) tier_lines) program = Some line
         \<and> deletes line tier \<and> importance f = Some (JStr tier))" for program files
    by (cases "map_of (zip (asked_programs groups keep_line) tier_lines) program")
      (auto simp: sel)
  have "f \<in> set (operator_selection groups keep_line tier_lines) \<longleftrightarrow>
      (\<exists>program files. (program, files) \<in> set groups
         \<and> f \<in> set (if keeps keep_line program then []
              else (case map_of (zip (asked_programs groups keep_line) tier_lines) program of
                      None \<Rightarrow> []
                    | Some line \<Rightarrow> filter (selected_by line) files)))"
    unfolding operator_selection_def by (simp add: Bex_def split_beta) (metis prod.collapse fst_conv snd_conv)
  then show ?thesis
    unfolding one by blast
qed

lemma display_answers:
  assumes "distinct (map fst groups)" and "summary_ok groups"
    and "programs_with_records groups \<noteq> []"
    and "list_all (\<lambda>line. \<not> keep_answer (programs_with_records groups) line) keep_rejected"
    and "keep_answer (programs_with_records groups) keep_line"
    and "length answers = length (asked_programs groups keep_line)"
    and "list_all (\<lambda>(rejected, line).
           list_all (\<lambda>l. \<not> tier_answer l) rejected \<and> tier_answer line) answers"
  shows "\<exists>sel. display_and_filter_files groups
            (keep_rejected @ keep_line # typed answers @ rest) = Some sel
     \<and> stdin_left sel = rest
     \<and> programs_to_keep sel = filter (keeps keep_line) (programs_with_records groups)
     \<and> to_move sel = operator_selection groups keep_line (map snd answers)"
proof -
  define keep where "keep = filter (keeps keep_line) (programs_with_records groups)"
  have asked: "filter (\<lambda>p. p \<notin> set keep) (programs_with_records groups) =
      asked_programs groups keep_line"
    unfolding keep_def asked_programs_def by (rule kept_programs)
  from assms(3) have ne: "groups \<noteq> []"
    by (auto simp: programs_with_records_def)
  have "read_programs_to_keep (programs_with_records groups)
      (keep_line # typed answers @ rest) = Some (keep, typed answers @ rest)"
    unfolding keep_def by (rule read_programs_to_keep_answer [OF assms(5)])
  with read_programs_to_keep_rejected [OF assms(4), of "keep_line # typed answers @ rest"]
  have r: "read_programs_to_keep (programs_with_records groups)
      (keep_rejected @ keep_line # typed answers @ rest) = Some (keep, typed answers @ rest)"
    by simp
  from select_files_answers [OF assms(2) assms(1) assms(6) [folded asked] assms(7), of rest]
  obtain sel where
    s: "select_files keep groups (typed answers @ rest) = Some sel"
       "stdin_left sel = rest" "programs_to_keep sel = keep" and
    m: "to_move sel =
         concat (map (\<lambda>(program, files).
            if program \<in> set keep then []
            else (case map_of (zip (asked_programs groups keep_line) (map snd answers))
                         program of
                    None \<Rightarrow> []
                  | Some line \<Rightarrow> filter (selected_by line) files)) groups)"
    unfolding asked by blast
  have same: "map (\<lambda>(program, files).
            if program \<in> set keep then []
            else (case map_of (zip (asked_programs groups keep_line) (map snd answers))
                         program of
                    None \<Rightarrow> []
                  | Some line \<Rightarrow> filter (selected_by line) files)) groups =
        map (\<lambda>(program, files).
            if keeps keep_line program then []
            else (case map_of (zip (asked_programs groups keep_line) (map snd answers))
                         program of
                    None \<Rightarrow> []
                  | Some line \<Rightarrow> filter (selected_by line) files)) groups"
  proof (rule map_cong [OF refl])
    fix g assume g: "g \<in> set groups"
    obtain program files where pf: "g = (program, files)" by (cases g)
    show "(case g of (program, files) \<Rightarrow>
            if program \<in> set keep then []
            else (case map_of (zip (asked_programs groups keep_line) (map snd answers))
                         program of
                    None \<Rightarrow> []
                  | Some line \<Rightarrow> filter (selected_by line) files)) =
          (case g of (program, files) \<Rightarrow>
            if keeps keep_line program then []
            else (case map_of (zip (asked_programs groups keep_line) (map snd answers))
                         program of
                    None \<Rightarrow> []
                  | Some line \<Rightarrow> filter (selected_by line) files))"
    proof (cases "files = []")
      case True
      then show ?thesis
        by (simp add: pf split: option.splits)
    next
      case False
      with g pf have "program \<in> set (programs_with_records groups)"
        by (force simp: programs_with_records_def)
      then have "program \<in> set keep \<longleftrightarrow> keeps keep_line program"
        by (simp add: keep_def)
      then show ?thesis
        by (simp add: pf)
    qed
  qed
  from ne assms(2,3) r s(1)
  have "display_and_filter_files groups (keep_rejected @ keep_line # typed answers @ rest) =
      Some sel"
    unfolding display_and_filter_files_def programs_with_records_def Let_def
    by (simp del: read_programs_to_keep.simps)
  moreover have "to_move sel = operator_selection groups keep_line (map snd answers)"
    unfolding m same operator_selection_def ..
  ultimately show ?thesis
    using s(2,3) unfolding keep_def by blast
qed

lemma none_selects_nothing:
  assumes "list_all (\<lambda>line. answer line = ''none'') tier_lines"
  shows "operator_selection groups keep_line tier_lines = []"
proof -
  have "line \<in> set tier_lines \<Longrightarrow> filter (selected_by line) files = []" for line files
    using assms
    by (auto simp: list_all_iff filter_empty_conv selected_by_def deletes_def
        split: option.splits json.splits)
  then have "map_of (zip (asked_programs groups keep_line) tier_lines) program = Some line
      \<Longrightarrow> filter (selected_by line) files = []" for program line files
    by (blast dest: map_of_SomeD set_zip_rightD)
  then show ?thesis
    unfolding operator_selection_def
    by (auto split: option.splits)
qed

lemma all_kept_selects_nothing:
  assumes "list_all (keeps keep_line) (map fst groups)"
  shows "operator_selection groups keep_line tier_lines = []"
  using assms unfolding operator_selection_def
  by (auto simp: list_all_iff)

text \<open>
  C6.  On a mapping whose keys are distinct and whose records carry a tier and a reason,
  let the operator type, at the first prompt, any lines that do not answer it and then a
  line that is "none", "all" or names a program that has records; and then, at the
  question about each program that has records and is not kept, any lines that do not
  answer it and then a line that is "none", "all" or names a tier.  Then the planner
  returns, having read exactly these lines; the programs it keeps are the programs with
  records that the accepted first line marks; and the records it selects are, program by
  program, those of the programs that this line does not mark whose tier is chosen by the
  line accepted for that program: a record is selected if and only if it sits in the bucket
  of a program that the operator did not keep and its tier is one that the operator's line
  for that program chooses.  A program that the operator keeps contributes no record; when
  every program is kept, or when every accepted tier line is "none", nothing is selected.
  Without any program that has records the planner returns the empty selection and reads
  no input, whatever the input is.
\<close>

theorem selection_planner:
  assumes "distinct (map fst groups)" and "summary_ok groups"
  shows "(programs_with_records groups \<noteq> []
           \<and> list_all (\<lambda>line. \<not> keep_answer (programs_with_records groups) line) keep_rejected
           \<and> keep_answer (programs_with_records groups) keep_line
           \<and> length answers = length (asked_programs groups keep_line)
           \<and> list_all (\<lambda>(rejected, line).
                 list_all (\<lambda>l. \<not> tier_answer l) rejected \<and> tier_answer line) answers \<longrightarrow>
          (\<exists>sel. display_and_filter_files groups
                    (keep_rejected @ keep_line # typed answers @ rest) = Some sel
             \<and> stdin_left sel = rest
             \<and> programs_to_keep sel = filter (keeps keep_line) (programs_with_records groups)
             \<and> to_move sel = operator_selection groups keep_line (map snd answers)
             \<and> (\<forall>f. f \<in> set (to_move sel) \<longleftrightarrow>
                   (\<exists>program files line tier. (program, files) \<in> set groups \<and> f \<in> set files
                      \<and> \<not> keeps keep_line program
                      \<and> map_of (zip (asked_programs groups keep_line) (map snd answers)) program
                          = Some line
                      \<and> deletes line tier \<and> importance f = Some (JStr tier)))
             \<and> (\<forall>program files f. (program, files) \<in> set groups \<and> keeps keep_line program
                    \<and> f \<in> set (to_move sel) \<longrightarrow>
                   (\<exists>other others. (other, others) \<in> set groups \<and> other \<noteq> program
                      \<and> \<not> keeps keep_line other \<and> f \<in> set others))
             \<and> (list_all (keeps keep_line) (map fst groups) \<longrightarrow> to_move sel = [])
             \<and> (list_all (\<lambda>line. answer line = ''none'') (map snd answers) \<longrightarrow>
                   to_move sel = [])))
     \<and> (programs_with_records groups = [] \<longrightarrow>
          display_and_filter_files groups stdin =
            Some \<lparr>to_move = [], programs_to_keep = [], levels_chosen = [], stdin_left = stdin\<rparr>)"
proof (intro conjI impI)
  assume a: "programs_with_records groups \<noteq> []
      \<and> list_all (\<lambda>line. \<not> keep_answer (programs_with_records groups) line) keep_rejected
      \<and> keep_answer (programs_with_records groups) keep_line
      \<and> length answers = length (asked_programs groups keep_line)
      \<and> list_all (\<lambda>(rejected, line).
            list_all (\<lambda>l. \<not> tier_answer l) rejected \<and> tier_answer line) answers"
  from a have a1: "programs_with_records groups \<noteq> []"
    and a2: "list_all (\<lambda>line. \<not> keep_answer (programs_with_records groups) line) keep_rejected"
    and a3: "keep_answer (programs_with_records groups) keep_line"
    and a4: "length answers = length (asked_programs groups keep_line)"
    and a5: "list_all (\<lambda>(rejected, line).
            list_all (\<lambda>l. \<not> tier_answer l) rejected \<and> tier_answer line) answers"
    by simp_all
  from display_answers [OF assms a1 a2 a3 a4 a5, of rest] obtain sel where
    s: "display_and_filter_files groups (keep_rejected @ keep_line # typed answers @ rest) =
          Some sel"
       "stdin_left sel = rest"
       "programs_to_keep sel = filter (keeps keep_line) (programs_with_records groups)" and
    m: "to_move sel = operator_selection groups keep_line (map snd answers)"
    by blast
  have mem: "\<forall>f. f \<in> set (to_move sel) \<longleftrightarrow>
      (\<exists>program files line tier. (program, files) \<in> set groups \<and> f \<in> set files
         \<and> \<not> keeps keep_line program
         \<and> map_of (zip (asked_programs groups keep_line) (map snd answers)) program = Some line
         \<and> deletes line tier \<and> importance f = Some (JStr tier))"
    unfolding m by (intro allI operator_selection_member)
  have kept: "\<forall>program files f. (program, files) \<in> set groups \<and> keeps keep_line program
        \<and> f \<in> set (to_move sel) \<longrightarrow>
      (\<exists>other others. (other, others) \<in> set groups \<and> other \<noteq> program
         \<and> \<not> keeps keep_line other \<and> f \<in> set others)"
    using mem by blast
  have allk: "list_all (keeps keep_line) (map fst groups) \<longrightarrow> to_move sel = []"
    unfolding m by (intro impI all_kept_selects_nothing)
  have nonel: "list_all (\<lambda>line. answer line = ''none'') (map snd answers) \<longrightarrow> to_move sel = []"
    unfolding m by (intro impI none_selects_nothing)
  from s m mem kept allk nonel
  show "\<exists>sel. display_and_filter_files groups
            (keep_rejected @ keep_line # typed answers @ rest) = Some sel
     \<and> stdin_left sel = rest
     \<and> programs_to_keep sel = filter (keeps keep_line) (programs_with_records groups)
     \<and> to_move sel = operator_selection groups keep_line (map snd answers)
     \<and> (\<forall>f. f \<in> set (to_move sel) \<longleftrightarrow>
           (\<exists>program files line tier. (program, files) \<in> set groups \<and> f \<in> set files
              \<and> \<not> keeps keep_line program
              \<and> map_of (zip (asked_programs groups keep_line) (map snd answers)) program
                  = Some line
              \<and> deletes line tier \<and> importance f = Some (JStr tier)))
     \<and> (\<forall>program files f. (program, files) \<in> set groups \<and> keeps keep_line program
            \<and> f \<in> set (to_move sel) \<longrightarrow>
           (\<exists>other others. (other, others) \<in> set groups \<and> other \<noteq> program
              \<and> \<not> keeps keep_line other \<and> f \<in> set others))
     \<and> (list_all (keeps keep_line) (map fst groups) \<longrightarrow> to_move sel = [])
     \<and> (list_all (\<lambda>line. answer line = ''none'') (map snd answers) \<longrightarrow> to_move sel = [])"
    by (intro exI [of _ sel] conjI)
next
  assume "programs_with_records groups = []"
  then show "display_and_filter_files groups stdin =
      Some \<lparr>to_move = [], programs_to_keep = [], levels_chosen = [], stdin_left = stdin\<rparr>"
    by (rule display_all_empty)
qed

theorem selection_planner_witness:
  "(\<exists>sel. display_and_filter_files example_groups example_stdin = Some sel
      \<and> stdin_left sel = [''y'']
      \<and> programs_to_keep sel = [''Android Studio'']
      \<and> map path (to_move sel) = [''/Library/Caches/tool/blob.dat''])
   \<and> display_and_filter_files [(''Others'', [])] [''all''] =
       Some \<lparr>to_move = [], programs_to_keep = [], levels_chosen = [], stdin_left = [''all'']\<rparr>"
proof -
  let ?k = "'' Android Studio ''" and ?t = "''High, low''"
  have d: "distinct (map fst example_groups)"
    by (simp add: example_groups_def)
  have ok: "summary_ok example_groups"
    by (simp add: example_groups_def summary_ok_def example_record_def)
  have pw: "programs_with_records example_groups = [''Android Studio'', ''Others'']"
    by (simp add: programs_with_records_def example_groups_def)
  have ans: "answer ?k = ''android studio''"
    by (simp add: answer_def strip_def is_space_def lower_def)
  have ent: "entries ?k = [''android studio'']"
    by (simp add: entries_def ans strip_def is_space_def)
  have k1: "keeps ?k ''Android Studio''" and k2: "\<not> keeps ?k ''Others''"
    by (simp_all add: keeps_def ans ent lower_def)
  have ka: "keep_answer (programs_with_records example_groups) ?k"
    by (simp add: keep_answer_def pw k1)
  have ans0: "answer ''editor'' = ''editor''"
    by (simp add: answer_def strip_def is_space_def lower_def)
  have ent0: "entries ''editor'' = [''editor'']"
    by (simp add: entries_def ans0 strip_def is_space_def)
  have kr: "list_all (\<lambda>line. \<not> keep_answer (programs_with_records example_groups) line)
      [''editor'']"
    by (simp add: keep_answer_def pw keeps_def ans0 ent0 lower_def)
  have asked: "asked_programs example_groups ?k = [''Others'']"
    by (simp add: asked_programs_def pw k1 k2)
  have ans2: "answer ?t = ''high, low''"
    by (simp add: answer_def strip_def is_space_def lower_def)
  have ent2: "entries ?t = [''high'', ''low'']"
    by (simp add: entries_def ans2 strip_def is_space_def)
  have del: "deletes ?t ''High''" "deletes ?t ''Low''" "\<not> deletes ?t ''Medium''"
    by (simp_all add: deletes_def ans2 ent2 LEVELS_def lower_def)
  have ta: "tier_answer ?t"
    by (simp add: tier_answer_def LEVELS_def del)
  have ans3: "answer ''huge'' = ''huge''"
    by (simp add: answer_def strip_def is_space_def lower_def)
  have ent3: "entries ''huge'' = [''huge'']"
    by (simp add: entries_def ans3 strip_def is_space_def)
  have tr: "\<not> tier_answer ''huge''"
    by (simp add: tier_answer_def deletes_def ans3 ent3 LEVELS_def lower_def)
  have os: "map path (operator_selection example_groups ?k [?t]) =
      [''/Library/Caches/tool/blob.dat'']"
    unfolding operator_selection_def asked
    by (simp add: example_groups_def k1 k2 keeps_def ans ent lower_def selected_by_def del)
  have pre: "programs_with_records example_groups \<noteq> []
      \<and> list_all (\<lambda>line. \<not> keep_answer (programs_with_records example_groups) line) [''editor'']
      \<and> keep_answer (programs_with_records example_groups) ?k
      \<and> length [([''huge''], ?t)] = length (asked_programs example_groups ?k)
      \<and> list_all (\<lambda>(rejected, line).
            list_all (\<lambda>l. \<not> tier_answer l) rejected \<and> tier_answer line) [([''huge''], ?t)]"
    using ka kr ta tr by (simp add: pw asked)
  have stdin: "example_stdin = [''editor''] @ ?k # typed [([''huge''], ?t)] @ [''y'']"
    by (simp add: example_stdin_def typed_def)
  note t = selection_planner [OF d ok, of "[''editor'']" ?k "[([''huge''], ?t)]" "[''y'']" "[]"]
  from t [THEN conjunct1, THEN mp, OF pre] obtain sel where
    s: "display_and_filter_files example_groups
          ([''editor''] @ ?k # typed [([''huge''], ?t)] @ [''y'']) = Some sel"
       "stdin_left sel = [''y'']"
       "programs_to_keep sel = filter (keeps ?k) (programs_with_records example_groups)"
       "to_move sel = operator_selection example_groups ?k (map snd [([''huge''], ?t)])"
    by blast
  have a: "\<exists>sel. display_and_filter_files example_groups example_stdin = Some sel
      \<and> stdin_left sel = [''y'']
      \<and> programs_to_keep sel = [''Android Studio'']
      \<and> map path (to_move sel) = [''/Library/Caches/tool/blob.dat'']"
    using s os unfolding stdin by (intro exI [of _ sel]) (simp add: pw k1 k2)
  have d': "distinct (map fst [(''Others'', [] :: file_record list)])"
    and ok': "summary_ok [(''Others'', [] :: file_record list)]"
    and e: "programs_with_records [(''Others'', [] :: file_record list)] = []"
    by (simp_all add: summary_ok_def programs_with_records_def)
  note b = selection_planner [OF d' ok', of "[]" "[]" "[]" "[]" "[''all'']",
      THEN conjunct2, THEN mp, OF e]
  from a b show ?thesis by (intro conjI)
qed
section \<open>Paths\<close>

lemma split_on_no_sep: "sep \<notin> set c \<Longrightarrow> split_on sep c = [c]"
  by (induction c) auto

lemma split_on_append_sep:
  "sep \<notin> set c \<Longrightarrow> split_on sep (c @ sep # s) = c # split_on sep s"
  by (induction c) auto

lemma split_on_slashed:
  "CHR ''/'' \<notin> set c \<Longrightarrow> list_all (\<lambda>c. CHR ''/'' \<notin> set c) cs \<Longrightarrow>
   split_on CHR ''/'' (c @ concat (map (\<lambda>c. CHR ''/'' # c) cs)) = c # cs"
proof (induction cs arbitrary: c)
  case Nil
  then show ?case by (simp add: split_on_no_sep)
next
  case (Cons d ds)
  then show ?case by (simp add: split_on_append_sep)
qed

lemma names_slash_free: "names cs \<Longrightarrow> list_all (\<lambda>c. CHR ''/'' \<notin> set c) cs"
  by (simp add: names_def list_all_iff)

lemma names_append: "names (xs @ ys) \<longleftrightarrow> names xs \<and> names ys"
  by (auto simp: names_def)

lemma names_nonempty: "names cs \<Longrightarrow> filter (\<lambda>x. x \<noteq> []) cs = cs"
  by (simp add: names_def list_all_iff)

lemma split_on_slashes:
  "list_all (\<lambda>c. CHR ''/'' \<notin> set c) cs \<Longrightarrow>
   split_on CHR ''/'' (concat (map (\<lambda>c. CHR ''/'' # c) cs)) = [] # cs"
  using split_on_slashed [of "[]" cs] by simp

lemma join_with_Cons:
  "join_with ''/'' (c # cs) = c @ concat (map (\<lambda>c. CHR ''/'' # c) cs)"
  by (induction cs arbitrary: c) auto

lemma join_with_slashes:
  "cs \<noteq> [] \<Longrightarrow> ''/'' @ join_with ''/'' cs = concat (map (\<lambda>c. CHR ''/'' # c) cs)"
  by (cases cs) (simp_all add: join_with_Cons del: join_with.simps)

lemma collapse_names:
  "names cs \<Longrightarrow> collapse rooted acc (cs @ others) = collapse rooted (acc @ cs) others"
proof (induction cs arbitrary: acc)
  case Nil
  show ?case by simp
next
  case (Cons c cs)
  then have "c \<noteq> []" "c \<noteq> ''.''" "c \<noteq> ''..''" "names cs"
    by (simp_all add: names_def)
  with Cons.IH [of "acc @ [c]"] show ?case by simp
qed

lemma collapse_names_all: "names cs \<Longrightarrow> collapse rooted acc cs = acc @ cs"
  using collapse_names [of cs rooted acc "[]"] by simp

lemma collapse_dotdots:
  "names acc \<Longrightarrow> k \<le> length acc \<Longrightarrow>
   collapse True acc (replicate k ''..'' @ others) = collapse True (take (length acc - k) acc) others"
proof (induction k arbitrary: acc)
  case 0
  show ?case by simp
next
  case (Suc k)
  then have ne: "acc \<noteq> []" by auto
  with Suc.prems(1) have "last acc \<noteq> ''..''"
    by (auto simp: names_def list_all_iff)
  moreover have "names (butlast acc)"
    using Suc.prems(1) by (auto simp: names_def list_all_iff dest: in_set_butlastD)
  moreover have "k \<le> length (butlast acc)"
    using Suc.prems(2) by simp
  ultimately show ?case
    using ne Suc.IH [of "butlast acc"] by (simp add: butlast_conv_take)
qed

lemma path_of_not_empty: "path_of cs \<noteq> []"
  by (cases cs) (simp_all add: path_of_def)

lemma path_of_prefixes:
  "names cs \<Longrightarrow> prefix ''/'' (path_of cs) \<and> \<not> prefix ''//'' (path_of cs)"
proof (cases cs)
  case Nil
  then show ?thesis by (simp add: path_of_def)
next
  case (Cons c ds)
  assume "names cs"
  with Cons obtain x xs where "c = x # xs" "x \<noteq> CHR ''/''"
    by (cases c) (auto simp: names_def)
  with Cons show ?thesis by (simp add: path_of_def)
qed

lemma split_path_of:
  "names cs \<Longrightarrow> split_on CHR ''/'' (path_of cs) = (if cs = [] then [[], []] else [] # cs)"
  by (simp add: path_of_def split_on_slashes names_slash_free)

lemma normpath_slashed:
  assumes "list_all (\<lambda>c. CHR ''/'' \<notin> set c) cs" and "cs \<noteq> []" and "hd cs \<noteq> []"
  shows "normpath (concat (map (\<lambda>c. CHR ''/'' # c) cs)) =
     path_of (collapse True [] cs)"
proof -
  let ?p = "concat (map (\<lambda>c. CHR ''/'' # c) cs)"
  from assms obtain x xs ds where cs: "cs = (x # xs) # ds" and x: "x \<noteq> CHR ''/''"
    by (cases cs; cases "hd cs") auto
  then have pre: "prefix ''/'' ?p" "\<not> prefix ''//'' ?p" "?p \<noteq> []"
    by simp_all
  have "split_on CHR ''/'' ?p = [] # cs"
    by (rule split_on_slashes [OF assms(1)])
  with pre show ?thesis
    by (cases "collapse True [] cs = []")
      (simp_all add: normpath_def path_of_def join_with_slashes [symmetric])
qed

lemma normpath_path_of: "names cs \<Longrightarrow> normpath (path_of cs) = path_of cs"
proof (cases "cs = []")
  case True
  then show ?thesis by (simp add: path_of_def normpath_def)
next
  case False
  assume n: "names cs"
  with False have "hd cs \<noteq> []"
    by (cases cs) (auto simp: names_def)
  from normpath_slashed [OF names_slash_free [OF n] False this] False n show ?thesis
    by (simp add: collapse_names_all) (simp add: path_of_def)
qed

lemma resolved_path_of: "names cs \<Longrightarrow> resolved (path_of cs) = cs"
  by (simp add: resolved_def normpath_path_of split_path_of names_nonempty)

lemma abspath_path_of: "names cs \<Longrightarrow> abspath wd (path_of cs) = path_of cs"
  by (simp add: abspath_def normpath_path_of path_of_prefixes)

lemma relpath_path_of:
  assumes "names ps" and "names hs"
  shows "relpath wd (path_of ps) (path_of hs) =
     Some (let rel_list = replicate (length hs - length (longest_common_prefix hs ps)) ''..''
                 @ drop (length (longest_common_prefix hs ps)) ps
           in if rel_list = [] then ''.'' else join_with ''/'' rel_list)"
proof -
  have "filter (\<lambda>x. x \<noteq> []) (split_on CHR ''/'' (path_of cs)) = cs" if "names cs" for cs
    using that by (simp add: split_path_of names_nonempty)
  with assms show ?thesis
    by (simp add: relpath_def abspath_path_of path_of_not_empty Let_def)
qed

lemma longest_common_prefix_append: "longest_common_prefix hs (hs @ rest) = hs"
  by (induction hs) auto

lemma longest_common_prefix_less:
  "\<not> prefix hs ps \<Longrightarrow> length (longest_common_prefix hs ps) < length hs"
  by (induction hs ps rule: longest_common_prefix.induct) auto

lemma path_of_append:
  "ys \<noteq> [] \<Longrightarrow> path_of (xs @ ys) =
     (if xs = [] then [] else path_of xs) @ concat (map (\<lambda>c. CHR ''/'' # c) ys)"
  by (simp add: path_of_def)

lemma rstrip_slash_path_of:
  "names cs \<Longrightarrow> rstrip_slash (path_of cs) = (if cs = [] then [] else path_of cs)"
proof (cases "cs = []")
  case True
  then show ?thesis by (simp add: path_of_def rstrip_slash_def)
next
  case False
  assume "names cs"
  with False have l: "last cs \<noteq> []" "CHR ''/'' \<notin> set (last cs)"
    by (auto simp: names_def list_all_iff)
  from False have "path_of cs = path_of (butlast cs @ [last cs])" by simp
  also have "\<dots> = (if butlast cs = [] then [] else path_of (butlast cs)) @ CHR ''/'' # last cs"
    by (subst path_of_append) simp_all
  finally obtain pre where p: "path_of cs = pre @ CHR ''/'' # last cs" by blast
  from l have "last (path_of cs) \<noteq> CHR ''/''"
    unfolding p by (metis last_ConsR last_appendR last_in_set list.discI)
  moreover have "path_of cs \<noteq> []" by (rule path_of_not_empty)
  ultimately have "dropWhile (\<lambda>c. c = CHR ''/'') (rev (path_of cs)) = rev (path_of cs)"
    by (cases "rev (path_of cs)") (auto simp: last_rev hd_rev)
  with False show ?thesis by (simp add: rstrip_slash_def)
qed

lemma home_path_of: "names hs \<Longrightarrow> expanduser (path_of hs) ''~'' = path_of hs"
  by (simp add: rstrip_slash_path_of path_of_not_empty) (simp add: path_of_def)

lemma BACKUP_DIR_path_of:
  "names hs \<Longrightarrow> userhome e = path_of hs \<Longrightarrow>
   BACKUP_DIR e = path_of (hs @ [''SystemDataCleanupBackup''])"
  by (simp add: BACKUP_DIR_def rstrip_slash_path_of path_of_append)

lemma join_path_of:
  assumes "names cs" and "rel_list \<noteq> []" and "hd rel_list \<noteq> []"
    and "CHR ''/'' \<notin> set (hd rel_list)" and "cs \<noteq> []"
  shows "join (path_of cs) (join_with ''/'' rel_list) =
     concat (map (\<lambda>c. CHR ''/'' # c) (cs @ rel_list))"
proof -
  from assms(2,3,4) have "\<not> prefix ''/'' (join_with ''/'' rel_list)"
    by (cases rel_list; cases "hd rel_list")
      (auto simp: join_with_Cons simp del: join_with.simps)
  moreover have "path_of cs \<noteq> []" by (rule path_of_not_empty)
  moreover have "last (path_of cs) \<noteq> CHR ''/''"
  proof -
    from assms(1,5) have r: "rstrip_slash (path_of cs) = path_of cs"
      by (simp add: rstrip_slash_path_of)
    show ?thesis
    proof
      assume "last (path_of cs) = CHR ''/''"
      then have "hd (rev (path_of cs)) = CHR ''/''"
        using path_of_not_empty [of cs] by (simp add: hd_rev)
      then have "length (dropWhile (\<lambda>c. c = CHR ''/'') (rev (path_of cs))) < length (rev (path_of cs))"
        using path_of_not_empty [of cs]
        by (cases "rev (path_of cs)") (auto simp: le_imp_less_Suc length_dropWhile_le)
      then have "length (rstrip_slash (path_of cs)) < length (path_of cs)"
        by (simp add: rstrip_slash_def)
      with r show False by simp
    qed
  qed
  ultimately have "join (path_of cs) (join_with ''/'' rel_list) =
      path_of cs @ ''/'' @ join_with ''/'' rel_list"
    by (simp add: join_def)
  moreover have "CHR ''/'' # join_with ''/'' rel_list = concat (map (\<lambda>c. CHR ''/'' # c) rel_list)"
    using join_with_slashes [OF assms(2)] by simp
  ultimately show ?thesis
    using assms(5) by (simp add: path_of_def)
qed

lemma dirname_slashed:
  assumes "CHR ''/'' \<notin> set c" and "names cs"
  shows "dirname (concat (map (\<lambda>c. CHR ''/'' # c) (cs @ [c]))) = path_of cs"
proof -
  have "rev (dropWhile (\<lambda>x. x \<noteq> CHR ''/'')
      (rev (concat (map (\<lambda>c. CHR ''/'' # c) (cs @ [c]))))) =
      concat (map (\<lambda>c. CHR ''/'' # c) cs) @ ''/''"
  proof -
    from assms(1) have "\<forall>x\<in>set c. x \<noteq> CHR ''/''" by blast
    then show ?thesis by (simp add: dropWhile_append3)
  qed
  moreover have "rstrip_slash (concat (map (\<lambda>c. CHR ''/'' # c) cs) @ ''/'') = path_of cs"
    if "cs \<noteq> []"
    using rstrip_slash_path_of [OF assms(2)] that
    by (simp add: rstrip_slash_def path_of_def)
  moreover have "concat (map (\<lambda>c. CHR ''/'' # c) cs) @ ''/'' \<noteq>
      replicate (length (concat (map (\<lambda>c. CHR ''/'' # c) cs) @ ''/'')) CHR ''/''"
    if "cs \<noteq> []"
  proof -
    from that assms(2) obtain x xs ds where "cs = (x # xs) # ds" "x \<noteq> CHR ''/''"
      by (cases cs; cases "hd cs") (auto simp: names_def)
    then show ?thesis by simp
  qed
  ultimately show ?thesis
    by (cases "cs = []") (simp_all add: dirname_def path_of_def Let_def)
qed

section \<open>Backup mover\<close>

lemma relpath_under_home:
  assumes "names hs" and "names rest" and "rest \<noteq> []"
  shows "relpath wd (path_of (hs @ rest)) (path_of hs) = Some (join_with ''/'' rest)"
proof -
  from assms have "names (hs @ rest)" by (simp add: names_append)
  from relpath_path_of [OF this assms(1), of wd] assms(3) show ?thesis
    by (simp add: longest_common_prefix_append)
qed

lemma destination_under_home:
  assumes "names hs" and "names rest" and "rest \<noteq> []" and "userhome e = path_of hs"
  shows "join (BACKUP_DIR e) (join_with ''/'' rest) =
       path_of (hs @ ''SystemDataCleanupBackup'' # rest)"
    and "BACKUP_DIR e @ ''/'' @ join_with ''/'' rest =
       path_of (hs @ ''SystemDataCleanupBackup'' # rest)"
    and "dirname (path_of (hs @ ''SystemDataCleanupBackup'' # rest)) =
       path_of (hs @ ''SystemDataCleanupBackup'' # butlast rest)"
proof -
  have b: "names (hs @ [''SystemDataCleanupBackup''])"
    using assms(1) by (simp add: names_append) (simp add: names_def)
  from assms(2,3) have h: "hd rest \<noteq> []" "CHR ''/'' \<notin> set (hd rest)"
    by (cases rest; simp add: names_def)+
  from join_path_of [OF b assms(3) h] BACKUP_DIR_path_of [OF assms(1,4)]
  show "join (BACKUP_DIR e) (join_with ''/'' rest) =
       path_of (hs @ ''SystemDataCleanupBackup'' # rest)"
    by (simp add: path_of_def)
  from join_with_slashes [OF assms(3)] BACKUP_DIR_path_of [OF assms(1,4)]
  show "BACKUP_DIR e @ ''/'' @ join_with ''/'' rest =
       path_of (hs @ ''SystemDataCleanupBackup'' # rest)"
    by (simp add: path_of_def)
  from assms(2,3) have l: "CHR ''/'' \<notin> set (last rest)" and bl: "names (butlast rest)"
    by (auto simp: names_def list_all_iff dest: in_set_butlastD)
  from b bl have n: "names (hs @ ''SystemDataCleanupBackup'' # butlast rest)"
    by (simp add: names_append) (simp add: names_def)
  have "hs @ ''SystemDataCleanupBackup'' # rest =
      (hs @ ''SystemDataCleanupBackup'' # butlast rest) @ [last rest]"
    using assms(3) by simp
  then have "path_of (hs @ ''SystemDataCleanupBackup'' # rest) =
      concat (map (\<lambda>c. CHR ''/'' # c) ((hs @ ''SystemDataCleanupBackup'' # butlast rest) @ [last rest]))"
    by (simp add: path_of_def)
  with dirname_slashed [OF l n]
  show "dirname (path_of (hs @ ''SystemDataCleanupBackup'' # rest)) =
       path_of (hs @ ''SystemDataCleanupBackup'' # butlast rest)"
    by simp
qed

lemma move_to_backup_calls:
  assumes "relpath (cwd e) file_path (expanduser (userhome e) ''~'') = Some rel"
  shows "\<exists>lines' r.
     move_to_backup (recording_os mk_ok mv_ok) e file_path (calls, lines) =
       Some ((calls @ Makedirs (dirname (join (BACKUP_DIR e) rel))
                # (if mk_ok (dirname (join (BACKUP_DIR e) rel)) \<and> \<not> DRY_RUN e
                   then [Move file_path (join (BACKUP_DIR e) rel)] else []), lines'), r)"
  using assms
  by (cases "mv_ok file_path (join (BACKUP_DIR e) rel)")
    (simp_all add: move_to_backup_def recording_os_def Let_def)

text \<open>
  C7.  For every record handed to the mover, with \<open>rel\<close> its path relative to the home
  directory, the mover first calls \<^verbatim>\<open>makedirs\<close> on the directory of the destination
  \<open>join BACKUP_DIR rel\<close>, and then, unless that call raised or the run is a dry run, moves
  the record to that destination; nothing else is done to the file system.  For a record
  under the home directory (home \<open>/h1/.../hn\<close>, record \<open>/h1/.../hn/r1/.../rm\<close>) the relative
  path is \<open>r1/.../rm\<close> and the destination is the backup root followed by \<open>/r1/.../rm\<close>; when
  both calls return, the file system is the one obtained by the move made after the
  directories were made, and the destination is returned.
\<close>

theorem relative_path_law:
  assumes "names hs" and "names rest" and "rest \<noteq> []" and "userhome e = path_of hs"
  shows "(\<forall>file_path rel. relpath (cwd e) file_path (expanduser (userhome e) ''~'') = Some rel \<longrightarrow>
          (\<exists>lines' r.
             move_to_backup (recording_os mk_ok mv_ok) e file_path (calls, lines) =
               Some ((calls @ Makedirs (dirname (join (BACKUP_DIR e) rel))
                        # (if mk_ok (dirname (join (BACKUP_DIR e) rel)) \<and> \<not> DRY_RUN e
                           then [Move file_path (join (BACKUP_DIR e) rel)] else []), lines'), r)))
     \<and> relpath (cwd e) (path_of (hs @ rest)) (expanduser (userhome e) ''~'') =
          Some (join_with ''/'' rest)
     \<and> join (BACKUP_DIR e) (join_with ''/'' rest) = BACKUP_DIR e @ ''/'' @ join_with ''/'' rest
     \<and> (\<not> DRY_RUN e \<and> fst (makedirs sys (dirname (BACKUP_DIR e @ ''/'' @ join_with ''/'' rest)) fs0)
          \<and> fst (move sys (path_of (hs @ rest)) (BACKUP_DIR e @ ''/'' @ join_with ''/'' rest)
                 (snd (makedirs sys (dirname (BACKUP_DIR e @ ''/'' @ join_with ''/'' rest)) fs0)))
        \<longrightarrow> move_to_backup sys e (path_of (hs @ rest)) (fs0, lines) =
             Some ((snd (move sys (path_of (hs @ rest)) (BACKUP_DIR e @ ''/'' @ join_with ''/'' rest)
                      (snd (makedirs sys (dirname (BACKUP_DIR e @ ''/'' @ join_with ''/'' rest)) fs0))),
                    lines @ [(INFO, ''Moved '' @ path_of (hs @ rest) @ '' to ''
                                @ BACKUP_DIR e @ ''/'' @ join_with ''/'' rest)]),
                   Some (BACKUP_DIR e @ ''/'' @ join_with ''/'' rest)))"
proof -
  have rel: "relpath (cwd e) (path_of (hs @ rest)) (expanduser (userhome e) ''~'') =
      Some (join_with ''/'' rest)"
    using relpath_under_home [OF assms(1,2,3)] assms(4) home_path_of [OF assms(1)] by simp
  note d = destination_under_home [OF assms]
  have j: "join (BACKUP_DIR e) (join_with ''/'' rest) = BACKUP_DIR e @ ''/'' @ join_with ''/'' rest"
    using d(1,2) by simp
  have m: "move_to_backup sys e (path_of (hs @ rest)) (fs0, lines) =
       Some ((snd (move sys (path_of (hs @ rest)) (BACKUP_DIR e @ ''/'' @ join_with ''/'' rest)
                (snd (makedirs sys (dirname (BACKUP_DIR e @ ''/'' @ join_with ''/'' rest)) fs0))),
              lines @ [(INFO, ''Moved '' @ path_of (hs @ rest) @ '' to ''
                          @ BACKUP_DIR e @ ''/'' @ join_with ''/'' rest)]),
             Some (BACKUP_DIR e @ ''/'' @ join_with ''/'' rest))"
    if "\<not> DRY_RUN e"
      "fst (makedirs sys (dirname (BACKUP_DIR e @ ''/'' @ join_with ''/'' rest)) fs0)"
      "fst (move sys (path_of (hs @ rest)) (BACKUP_DIR e @ ''/'' @ join_with ''/'' rest)
                 (snd (makedirs sys (dirname (BACKUP_DIR e @ ''/'' @ join_with ''/'' rest)) fs0)))"
    using that rel j
    by (simp add: move_to_backup_def Let_def split_beta split: prod.splits bool.splits)
  from rel j m move_to_backup_calls [of e _ _ mk_ok mv_ok calls lines] show ?thesis
    by blast
qed

theorem relative_path_law_witness:
  "relpath (cwd example_env) ''/Users/me/Library/Caches/app/x.db''
       (expanduser (userhome example_env) ''~'') = Some ''Library/Caches/app/x.db''
   \<and> move_to_backup (recording_os (\<lambda>d. True) (\<lambda>src dst. True)) example_env
        ''/Users/me/Library/Caches/app/x.db'' ([], []) =
      Some (([Makedirs ''/Users/me/SystemDataCleanupBackup/Library/Caches/app'',
              Move ''/Users/me/Library/Caches/app/x.db''
                ''/Users/me/SystemDataCleanupBackup/Library/Caches/app/x.db''],
             [(INFO, ''Moved /Users/me/Library/Caches/app/x.db to /Users/me/SystemDataCleanupBackup/Library/Caches/app/x.db'')]),
            Some ''/Users/me/SystemDataCleanupBackup/Library/Caches/app/x.db'')"
proof -
  have n: "names [''Users'', ''me'']" "names [''Library'', ''Caches'', ''app'', ''x.db'']"
    by (simp_all add: names_def)
  have ne: "[''Library'', ''Caches'', ''app'', ''x.db''] \<noteq> []" by simp
  have h: "userhome example_env = path_of [''Users'', ''me'']"
    by (simp add: example_env_def path_of_def)
  have b: "BACKUP_DIR example_env = ''/Users/me/SystemDataCleanupBackup''"
    by (simp add: BACKUP_DIR_def example_env_def rstrip_slash_def)
  have d: "dirname ''/Users/me/SystemDataCleanupBackup/Library/Caches/app/x.db'' =
      ''/Users/me/SystemDataCleanupBackup/Library/Caches/app''"
    by (simp add: dirname_def rstrip_slash_def)
  from relative_path_law [OF n ne h, where sys = "recording_os (\<lambda>d. True) (\<lambda>src dst. True)"
      and ?fs0.0 = "[]" and lines = "[]" and mk_ok = "\<lambda>d. True" and mv_ok = "\<lambda>src dst. True"
      and calls = "[]"]
  show ?thesis
    by (simp add: path_of_def b d recording_os_def) (simp add: example_env_def)
qed

section \<open>Records outside the home directory\<close>

lemma relpath_outside_home:
  assumes "names hs" and "names ps" and "\<not> prefix hs ps"
  shows "relpath wd (path_of ps) (path_of hs) =
     Some (join_with ''/''
       (replicate (length hs - length (longest_common_prefix hs ps)) ''..''
          @ drop (length (longest_common_prefix hs ps)) ps))"
    and "0 < length hs - length (longest_common_prefix hs ps)"
proof -
  from longest_common_prefix_less [OF assms(3)]
  show "0 < length hs - length (longest_common_prefix hs ps)" by simp
  then have "replicate (length hs - length (longest_common_prefix hs ps)) ''..''
          @ drop (length (longest_common_prefix hs ps)) ps \<noteq> []"
    by simp
  with relpath_path_of [OF assms(2,1), of wd]
  show "relpath wd (path_of ps) (path_of hs) =
     Some (join_with ''/''
       (replicate (length hs - length (longest_common_prefix hs ps)) ''..''
          @ drop (length (longest_common_prefix hs ps)) ps))"
    by (simp add: Let_def)
qed

lemma split_join_with:
  "cs \<noteq> [] \<Longrightarrow> list_all (\<lambda>c. CHR ''/'' \<notin> set c) cs \<Longrightarrow>
   split_on CHR ''/'' (join_with ''/'' cs) = cs"
  by (cases cs) (simp_all add: join_with_Cons split_on_slashed del: join_with.simps)

lemma names_take_drop: "names cs \<Longrightarrow> names (take n cs) \<and> names (drop n cs)"
  by (auto simp: names_def list_all_iff dest: in_set_takeD in_set_dropD)

lemma resolved_destination:
  assumes "names hs" and "names ps" and "i < length hs" and that: "names [b]"
  shows "resolved (join (path_of (hs @ [b]))
            (join_with ''/'' (replicate (length hs - i) ''..'' @ drop i ps)))
     = take (Suc i) hs @ drop i ps"
proof -
  let ?k = "length hs - i"
  let ?rel = "replicate ?k ''..'' @ drop i ps"
  from assms(3) have k: "0 < ?k" by simp
  then obtain k' where k': "?k = Suc k'" by (cases ?k) auto
  have hb: "names (hs @ [b])" using assms(1) that by (simp add: names_append)
  have rel_ne: "?rel \<noteq> []" using k by simp
  have hd_rel: "hd ?rel = ''..''" by (simp add: k')
  have j: "join (path_of (hs @ [b])) (join_with ''/'' ?rel) =
      concat (map (\<lambda>c. CHR ''/'' # c) ((hs @ [b]) @ ?rel))"
    by (rule join_path_of [OF hb rel_ne]) (simp_all add: hd_rel)
  have sf: "list_all (\<lambda>c. CHR ''/'' \<notin> set c) ((hs @ [b]) @ ?rel)"
    using names_slash_free [OF hb] names_slash_free [OF assms(2)]
    by (auto simp: list_all_iff dest: in_set_dropD)
  have hd_ne: "hd ((hs @ [b]) @ ?rel) \<noteq> []"
    using hb by (cases hs) (auto simp: names_def)
  have "collapse True [] ((hs @ [b]) @ ?rel) = collapse True (hs @ [b]) ?rel"
    using collapse_names [OF hb, of True "[]" ?rel] by simp
  also have "\<dots> = collapse True (take (length (hs @ [b]) - ?k) (hs @ [b])) (drop i ps)"
    by (rule collapse_dotdots [OF hb]) simp
  also have "take (length (hs @ [b]) - ?k) (hs @ [b]) = take (Suc i) hs"
    using assms(3) by simp
  also have "collapse True (take (Suc i) hs) (drop i ps) = take (Suc i) hs @ drop i ps"
    using names_take_drop [OF assms(2), of i] by (simp add: collapse_names_all)
  finally have c: "collapse True [] ((hs @ [b]) @ ?rel) = take (Suc i) hs @ drop i ps" .
  have n: "names (take (Suc i) hs @ drop i ps)"
    using names_take_drop [OF assms(1), of "Suc i"] names_take_drop [OF assms(2), of i]
    by (simp add: names_append)
  have "normpath (join (path_of (hs @ [b])) (join_with ''/'' ?rel)) =
      path_of (take (Suc i) hs @ drop i ps)"
    unfolding j using normpath_slashed [OF sf _ hd_ne] c by simp
  moreover have "filter (\<lambda>x. x \<noteq> [])
      (split_on CHR ''/'' (path_of (take (Suc i) hs @ drop i ps))) = take (Suc i) hs @ drop i ps"
    using names_nonempty [OF n] assms(3)
    by (simp add: split_path_of [OF n] del: filter_append)
  ultimately show ?thesis
    by (simp only: resolved_def)
qed

lemma under_backup_iff:
  assumes "i < length hs"
  shows "prefix (hs @ [b]) (take (Suc i) hs @ drop i ps) \<longleftrightarrow>
     prefix (drop (Suc i) hs @ [b]) (drop i ps)"
proof -
  have "hs @ [b] = take (Suc i) hs @ (drop (Suc i) hs @ [b])"
    by simp
  then have "prefix (hs @ [b]) (take (Suc i) hs @ drop i ps) \<longleftrightarrow>
      prefix (take (Suc i) hs @ (drop (Suc i) hs @ [b])) (take (Suc i) hs @ drop i ps)"
    by (rule arg_cong)
  then show ?thesis
    by (simp only: same_prefix_prefix)
qed

lemma no_backup_name:
  assumes "b \<notin> set ps"
  shows "\<not> prefix (ds @ [b]) (drop i ps)"
proof
  assume "prefix (ds @ [b]) (drop i ps)"
  then have "set (ds @ [b]) \<subseteq> set (drop i ps)"
    by (rule set_mono_prefix)
  then have "b \<in> set (drop i ps)"
    by simp
  with assms show False
    by (auto dest: in_set_dropD)
qed

lemma example_run:
  "\<exists>calls lines.
     cleanup_files (recording_os (\<lambda>d. True) (\<lambda>src dst. True)) example_env 4 example_oracles
       [2, 0, 1] [''none'', ''all'', ''all'', ''Y''] [] example_batch = Some (calls, lines)
     \<and> Move ''/Library/Caches/tool/blob.dat''
          ''/Users/me/SystemDataCleanupBackup/../../Library/Caches/tool/blob.dat'' \<in> set calls"
  by (simp add: cleanup_files_def classify_all_def as_completed_def worker_pool_def
      classify_file_with_openai_def example_oracles_def example_batch_def example_record_def
      initial_agg_def aggregate_step_def get_program_name_def KNOWN_PROGRAMS_def lower_def
      REQUIRED_def TIERS_def upt_rec display_and_filter_files_def summary_ok_def strip_def
      is_space_def LEVELS_def move_to_backup_def relpath_def abspath_def normpath_def
      example_env_def BACKUP_DIR_def rstrip_slash_def join_def dirname_def recording_os_def
      sublist_code Let_def fail_safe_def)

theorem outside_home_counterexample:
  "\<not> is_under ''/private/var/tmp/u'' ''/private/var/tmp/SystemDataCleanupBackup/x''
   \<and> prefix ''/private/var/tmp/'' ''/private/var/tmp/SystemDataCleanupBackup/x''
   \<and> get_file_metadata ''/private/var/tmp/SystemDataCleanupBackup/x''
        (Some (20480, ''2024-01-01T00:00:00'', False)) \<noteq> None
   \<and> relpath ''/'' ''/private/var/tmp/SystemDataCleanupBackup/x''
        (expanduser ''/private/var/tmp/u'' ''~'') = Some ''../SystemDataCleanupBackup/x''
   \<and> move_to_backup (recording_os (\<lambda>d. True) (\<lambda>src dst. True))
        (example_env\<lparr>userhome := ''/private/var/tmp/u'', cwd := ''/''\<rparr>)
        ''/private/var/tmp/SystemDataCleanupBackup/x'' ([], []) =
      Some (([Makedirs ''/private/var/tmp/u/SystemDataCleanupBackup/../SystemDataCleanupBackup'',
              Move ''/private/var/tmp/SystemDataCleanupBackup/x''
                ''/private/var/tmp/u/SystemDataCleanupBackup/../SystemDataCleanupBackup/x''],
             [(INFO, ''Moved /private/var/tmp/SystemDataCleanupBackup/x to /private/var/tmp/u/SystemDataCleanupBackup/../SystemDataCleanupBackup/x'')]),
            Some ''/private/var/tmp/u/SystemDataCleanupBackup/../SystemDataCleanupBackup/x'')
   \<and> is_under (BACKUP_DIR (example_env\<lparr>userhome := ''/private/var/tmp/u'', cwd := ''/''\<rparr>))
        ''/private/var/tmp/u/SystemDataCleanupBackup/../SystemDataCleanupBackup/x''"
  by (simp add: is_under_def resolved_def normpath_def get_file_metadata_def
      is_protected_path_def PROTECTED_PATHS_def MIN_FILE_SIZE_KB_def relpath_def abspath_def
      move_to_backup_def BACKUP_DIR_def rstrip_slash_def join_def dirname_def recording_os_def
      example_env_def Let_def)

text \<open>
  C9, with the exact condition under which the destination leaves the backup root.  Let
  the home directory be \<open>/h1/.../hn\<close> and let a record have the absolute normal path
  \<open>/p1/.../pm\<close>, not under the home directory; let \<open>i\<close> be the number of leading components
  that the two share.  Then the relative path the mover computes begins with the component
  \<^verbatim>\<open>..\<close>, and the mover calls \<^verbatim>\<open>makedirs\<close> on the directory of the destination and moves the
  record to the destination built from it.  That destination resolves to \<open>/h1/.../h(i+1)\<close>
  followed by \<open>p(i+1), ..., pm\<close>; so it lies under the backup root if and only if the
  record's path continues, after the shared components, with \<open>h(i+2), ..., hn\<close> and then
  \<^verbatim>\<open>SystemDataCleanupBackup\<close>, and it lies outside the backup root in every other case, in
  particular whenever no component of the record's path is \<^verbatim>\<open>SystemDataCleanupBackup\<close>.
  The roots of the scanner include \<^verbatim>\<open>/Library/Caches\<close>, \<^verbatim>\<open>/private/var/tmp\<close> and
  \<^verbatim>\<open>/private/var/log\<close>, a file under such a root passes the scanner's filter, and a run in
  which it is classified as not important and selected moves it.
\<close>

theorem outside_home_destination:
  assumes "names hs" and "names ps" and "userhome e = path_of hs"
    and "\<not> is_under (userhome e) (path_of ps)"
  shows "(\<exists>rel. relpath (cwd e) (path_of ps) (expanduser (userhome e) ''~'') = Some rel
          \<and> hd (split_on CHR ''/'' rel) = ''..''
          \<and> resolved (join (BACKUP_DIR e) rel) =
              take (Suc (length (longest_common_prefix hs ps))) hs
                @ drop (length (longest_common_prefix hs ps)) ps
          \<and> (is_under (BACKUP_DIR e) (join (BACKUP_DIR e) rel) \<longleftrightarrow>
               prefix (drop (Suc (length (longest_common_prefix hs ps))) hs
                         @ [''SystemDataCleanupBackup''])
                      (drop (length (longest_common_prefix hs ps)) ps))
          \<and> (''SystemDataCleanupBackup'' \<notin> set ps \<longrightarrow>
               \<not> is_under (BACKUP_DIR e) (join (BACKUP_DIR e) rel))
          \<and> (\<exists>lines' r.
                move_to_backup (recording_os mk_ok mv_ok) e (path_of ps) (calls, lines) =
                  Some ((calls @ Makedirs (dirname (join (BACKUP_DIR e) rel))
                           # (if mk_ok (dirname (join (BACKUP_DIR e) rel)) \<and> \<not> DRY_RUN e
                              then [Move (path_of ps) (join (BACKUP_DIR e) rel)] else []),
                         lines'), r)))
     \<and> set [''/Library/Caches'', ''/private/var/tmp'', ''/private/var/log''] \<subseteq> set (SCAN_DIRS e)
     \<and> get_file_metadata ''/Library/Caches/tool/blob.dat''
          (Some (20480, ''2024-01-01T00:00:00'', False)) = Some (example_batch ! 2)
     \<and> (\<exists>calls lines.
           cleanup_files (recording_os (\<lambda>d. True) (\<lambda>src dst. True)) example_env 4
             example_oracles [2, 0, 1] [''none'', ''all'', ''all'', ''Y''] [] example_batch =
               Some (calls, lines)
           \<and> Move ''/Library/Caches/tool/blob.dat''
                ''/Users/me/SystemDataCleanupBackup/../../Library/Caches/tool/blob.dat''
                \<in> set calls)"
proof -
  let ?i = "length (longest_common_prefix hs ps)"
  let ?rel_list = "replicate (length hs - ?i) ''..'' @ drop ?i ps"
  let ?rel = "join_with ''/'' ?rel_list"
  let ?b = "''SystemDataCleanupBackup''"
  from assms(1,2,3,4) have out: "\<not> prefix hs ps"
    by (simp add: is_under_def resolved_path_of [unfolded resolved_def] resolved_def)
  note r = relpath_outside_home [OF assms(1,2) out]
  from longest_common_prefix_less [OF out] have i: "?i < length hs" .
  have rel: "relpath (cwd e) (path_of ps) (expanduser (userhome e) ''~'') = Some ?rel"
    using r(1) assms(3) home_path_of [OF assms(1)] by simp
  have sf: "list_all (\<lambda>c. CHR ''/'' \<notin> set c) ?rel_list"
    using names_slash_free [OF assms(2)]
    by (auto simp: list_all_iff dest: in_set_dropD)
  have ne: "?rel_list \<noteq> []" using r(2) by simp
  have "hd ?rel_list = ''..''"
    using r(2) by (cases "length hs - ?i") simp_all
  with split_join_with [OF ne sf] have dots: "hd (split_on CHR ''/'' ?rel) = ''..''"
    by simp
  have b: "names [?b]" by (simp add: names_def)
  have bd: "BACKUP_DIR e = path_of (hs @ [?b])"
    by (rule BACKUP_DIR_path_of [OF assms(1,3)])
  have hb: "names (hs @ [?b])"
    using assms(1) b by (simp add: names_append)
  have res: "resolved (join (BACKUP_DIR e) ?rel) = take (Suc ?i) hs @ drop ?i ps"
    unfolding bd by (rule resolved_destination [OF assms(1,2) i b])
  have root: "resolved (BACKUP_DIR e) = hs @ [?b]"
    unfolding bd by (rule resolved_path_of [OF hb])
  have under: "is_under (BACKUP_DIR e) (join (BACKUP_DIR e) ?rel) \<longleftrightarrow>
      prefix (drop (Suc ?i) hs @ [?b]) (drop ?i ps)"
    unfolding is_under_def res root by (rule under_backup_iff [OF i])
  have outside: "?b \<notin> set ps \<longrightarrow> \<not> is_under (BACKUP_DIR e) (join (BACKUP_DIR e) ?rel)"
    unfolding under by (intro impI no_backup_name)
  have scan: "set [''/Library/Caches'', ''/private/var/tmp'', ''/private/var/log'']
      \<subseteq> set (SCAN_DIRS e)"
    by (simp add: SCAN_DIRS_def)
  have meta: "get_file_metadata ''/Library/Caches/tool/blob.dat''
      (Some (20480, ''2024-01-01T00:00:00'', False)) = Some (example_batch ! 2)"
    by (simp add: get_file_metadata_def is_protected_path_def PROTECTED_PATHS_def
        MIN_FILE_SIZE_KB_def example_batch_def example_record_def)
  from rel dots res under outside move_to_backup_calls [OF rel, of mk_ok mv_ok calls lines]
  have "\<exists>rel. relpath (cwd e) (path_of ps) (expanduser (userhome e) ''~'') = Some rel
          \<and> hd (split_on CHR ''/'' rel) = ''..''
          \<and> resolved (join (BACKUP_DIR e) rel) = take (Suc ?i) hs @ drop ?i ps
          \<and> (is_under (BACKUP_DIR e) (join (BACKUP_DIR e) rel) \<longleftrightarrow>
               prefix (drop (Suc ?i) hs @ [?b]) (drop ?i ps))
          \<and> (?b \<notin> set ps \<longrightarrow> \<not> is_under (BACKUP_DIR e) (join (BACKUP_DIR e) rel))
          \<and> (\<exists>lines' r.
                move_to_backup (recording_os mk_ok mv_ok) e (path_of ps) (calls, lines) =
                  Some ((calls @ Makedirs (dirname (join (BACKUP_DIR e) rel))
                           # (if mk_ok (dirname (join (BACKUP_DIR e) rel)) \<and> \<not> DRY_RUN e
                              then [Move (path_of ps) (join (BACKUP_DIR e) rel)] else []),
                         lines'), r))"
    by (intro exI [of _ ?rel] conjI)
  with scan meta example_run show ?thesis
    by (intro conjI)
qed

theorem outside_home_destination_witness:
  "(\<exists>rel. relpath (cwd example_env) ''/Library/Caches/SystemDataCleanupBackup/x''
            (expanduser (userhome example_env) ''~'') = Some rel
      \<and> hd (split_on CHR ''/'' rel) = ''..''
      \<and> resolved (join (BACKUP_DIR example_env) rel) =
          [''Users'', ''Library'', ''Caches'', ''SystemDataCleanupBackup'', ''x'']
      \<and> \<not> is_under (BACKUP_DIR example_env) (join (BACKUP_DIR example_env) rel)
      \<and> (\<exists>lines' r.
            move_to_backup (recording_os (\<lambda>d. True) (\<lambda>src dst. True)) example_env
              ''/Library/Caches/SystemDataCleanupBackup/x'' ([], []) =
              Some (([Makedirs (dirname (join (BACKUP_DIR example_env) rel)),
                      Move ''/Library/Caches/SystemDataCleanupBackup/x''
                        (join (BACKUP_DIR example_env) rel)],
                     lines'), r)))
   \<and> (\<exists>rel. relpath (cwd example_env) ''/Library/Caches/tool/blob.dat''
            (expanduser (userhome example_env) ''~'') = Some rel
      \<and> hd (split_on CHR ''/'' rel) = ''..''
      \<and> \<not> is_under (BACKUP_DIR example_env) (join (BACKUP_DIR example_env) rel))"
proof -
  let ?ps = "[''Library'', ''Caches'', ''SystemDataCleanupBackup'', ''x'']"
  let ?qs = "[''Library'', ''Caches'', ''tool'', ''blob.dat'']"
  have n: "names [''Users'', ''me'']" "names ?ps" "names ?qs"
    by (simp_all add: names_def)
  have h: "userhome example_env = path_of [''Users'', ''me'']"
    by (simp add: example_env_def path_of_def)
  have p: "path_of ?ps = ''/Library/Caches/SystemDataCleanupBackup/x''"
    and q: "path_of ?qs = ''/Library/Caches/tool/blob.dat''"
    by (simp_all add: path_of_def)
  have out: "\<not> is_under (userhome example_env) (path_of ?ps)"
    "\<not> is_under (userhome example_env) (path_of ?qs)"
    by (simp_all add: is_under_def resolved_def normpath_def example_env_def path_of_def)
  have dry: "\<not> DRY_RUN example_env" by (simp add: example_env_def)
  have lcp: "longest_common_prefix [''Users'', ''me''] ?ps = []"
    by simp
  have nb: "''SystemDataCleanupBackup'' \<notin> set ?qs"
    by simp
  from outside_home_destination [OF n(1,2) h out(1), where mk_ok = "\<lambda>d. True"
      and mv_ok = "\<lambda>src dst. True" and calls = "[]" and lines = "[]", THEN conjunct1]
  have a: "\<exists>rel. relpath (cwd example_env) ''/Library/Caches/SystemDataCleanupBackup/x''
            (expanduser (userhome example_env) ''~'') = Some rel
      \<and> hd (split_on CHR ''/'' rel) = ''..''
      \<and> resolved (join (BACKUP_DIR example_env) rel) =
          [''Users'', ''Library'', ''Caches'', ''SystemDataCleanupBackup'', ''x'']
      \<and> \<not> is_under (BACKUP_DIR example_env) (join (BACKUP_DIR example_env) rel)
      \<and> (\<exists>lines' r.
            move_to_backup (recording_os (\<lambda>d. True) (\<lambda>src dst. True)) example_env
              ''/Library/Caches/SystemDataCleanupBackup/x'' ([], []) =
              Some (([Makedirs (dirname (join (BACKUP_DIR example_env) rel)),
                      Move ''/Library/Caches/SystemDataCleanupBackup/x''
                        (join (BACKUP_DIR example_env) rel)],
                     lines'), r))"
    unfolding p lcp using dry by simp
  from outside_home_destination [OF n(1,3) h out(2), where mk_ok = "\<lambda>d. True"
      and mv_ok = "\<lambda>src dst. True" and calls = "[]" and lines = "[]", THEN conjunct1]
  have b: "\<exists>rel. relpath (cwd example_env) ''/Library/Caches/tool/blob.dat''
            (expanduser (userhome example_env) ''~'') = Some rel
      \<and> hd (split_on CHR ''/'' rel) = ''..''
      \<and> \<not> is_under (BACKUP_DIR example_env) (join (BACKUP_DIR example_env) rel)"
    unfolding q using nb by blast
  from a b show ?thesis by (rule conjI)
qed
section \<open>Dry mode\<close>

lemma move_all_dry:
  "DRY_RUN e \<Longrightarrow>
   move_all sys e files (fs0, lines) =
     Some (fs0, lines @ map (\<lambda>m. (INFO, ''[DRY RUN] Would move '' @ path m)) files)"
  by (induction files arbitrary: lines) simp_all

lemma cleanup_files_dry_frame:
  assumes "DRY_RUN e" and "cleanup_files sys e n oracles order stdin fs0 files = Some (fs1, lines)"
  shows "fs1 = fs0"
  using assms
  by (auto simp: cleanup_files_def move_all_dry split: option.splits if_splits list.splits)

lemma cleanup_files_dry_log:
  assumes "DRY_RUN e" and "classify_all e n oracles order files = Some st"
    and "to_delete st \<noteq> []"
    and "display_and_filter_files (program_files st) stdin = Some sel"
    and "to_move sel \<noteq> []" and "stdin_left sel = confirm # left" and "lower confirm = ''y''"
  shows "cleanup_files sys e n oracles order stdin fs0 files =
     Some (fs0, (INFO, ''Proceeding with'')
        # map (\<lambda>m. (INFO, ''[DRY RUN] Would move '' @ path m)) (to_move sel)
        @ [(INFO, ''Files moved to '' @ BACKUP_DIR e @ ''. Review before permanent deletion.''),
           (INFO, ''Running in DRY_RUN mode. No files were actually moved.'')])"
  using assms by (simp add: cleanup_files_def move_all_dry)

lemma move_to_backup_dry:
  assumes "DRY_RUN e" and "relpath (cwd e) file_path (expanduser (userhome e) ''~'') = Some rel"
  shows "\<exists>lines' r. move_to_backup sys e file_path (fs0, lines) =
     Some ((snd (makedirs sys (dirname (join (BACKUP_DIR e) rel)) fs0), lines'), r)"
  using assms
  by (cases "makedirs sys (dirname (join (BACKUP_DIR e) rel)) fs0";
      cases "fst (makedirs sys (dirname (join (BACKUP_DIR e) rel)) fs0)")
    (simp_all add: move_to_backup_def Let_def)

text \<open>
  C8, for the run and for the mover.  With dry mode enabled, a run of \<^verbatim>\<open>cleanup_files\<close> leaves the file system
  exactly as it was, whatever \<^verbatim>\<open>makedirs\<close> and \<^verbatim>\<open>move\<close> would do: neither is called, so no
  directory is created, every source is still present and no destination exists.  When
  the run gets as far as the relocation (something was selected and confirmed), it logs,
  after the line that announces the relocation, one line "[DRY RUN] Would move" per selected
  record, in order, and the two closing lines.
  The mover itself, if called in dry mode, calls \<^verbatim>\<open>makedirs\<close> on the directory of the
  destination and does not move.
\<close>

theorem dry_mode:
  assumes "DRY_RUN e"
  shows "(\<forall>fs1 lines. cleanup_files sys e n oracles order stdin fs0 files = Some (fs1, lines)
            \<longrightarrow> fs1 = fs0)
     \<and> (\<forall>st sel confirm left.
           classify_all e n oracles order files = Some st \<and> to_delete st \<noteq> []
           \<and> display_and_filter_files (program_files st) stdin = Some sel
           \<and> to_move sel \<noteq> [] \<and> stdin_left sel = confirm # left \<and> lower confirm = ''y''
           \<longrightarrow> cleanup_files sys e n oracles order stdin fs0 files =
                 Some (fs0, (INFO, ''Proceeding with'')
                   # map (\<lambda>m. (INFO, ''[DRY RUN] Would move '' @ path m)) (to_move sel)
                   @ [(INFO, ''Files moved to '' @ BACKUP_DIR e
                              @ ''. Review before permanent deletion.''),
                      (INFO, ''Running in DRY_RUN mode. No files were actually moved.'')]))
     \<and> (\<forall>file_path rel lines.
           relpath (cwd e) file_path (expanduser (userhome e) ''~'') = Some rel \<longrightarrow>
           (\<exists>lines' r. move_to_backup sys e file_path (fs0, lines) =
              Some ((snd (makedirs sys (dirname (join (BACKUP_DIR e) rel)) fs0), lines'), r)))"
proof (intro conjI allI impI)
  fix fs1 lines
  assume "cleanup_files sys e n oracles order stdin fs0 files = Some (fs1, lines)"
  then show "fs1 = fs0"
    by (rule cleanup_files_dry_frame [OF assms])
next
  fix st sel confirm left
  assume "classify_all e n oracles order files = Some st \<and> to_delete st \<noteq> []
      \<and> display_and_filter_files (program_files st) stdin = Some sel
      \<and> to_move sel \<noteq> [] \<and> stdin_left sel = confirm # left \<and> lower confirm = ''y''"
  then show "cleanup_files sys e n oracles order stdin fs0 files =
      Some (fs0, (INFO, ''Proceeding with'')
        # map (\<lambda>m. (INFO, ''[DRY RUN] Would move '' @ path m)) (to_move sel)
        @ [(INFO, ''Files moved to '' @ BACKUP_DIR e @ ''. Review before permanent deletion.''),
           (INFO, ''Running in DRY_RUN mode. No files were actually moved.'')])"
    by (elim conjE) (rule cleanup_files_dry_log [OF assms], assumption+)
next
  fix file_path rel lines
  assume "relpath (cwd e) file_path (expanduser (userhome e) ''~'') = Some rel"
  then show "\<exists>lines' r. move_to_backup sys e file_path (fs0, lines) =
      Some ((snd (makedirs sys (dirname (join (BACKUP_DIR e) rel)) fs0), lines'), r)"
    by (rule move_to_backup_dry [OF assms])
qed

theorem dry_mode_counterexample:
  "cleanup_files (recording_os (\<lambda>d. True) (\<lambda>src dst. True)) (example_env\<lparr>DRY_RUN := True\<rparr>) 4
     example_oracles [2, 0, 1] [''none'', ''all'', ''all'', ''Y''] [] example_batch =
   Some ([],
     [(INFO, ''Proceeding with''),
      (INFO, ''[DRY RUN] Would move /Users/me/Library/Caches/Android Studio/index.bin''),
      (INFO, ''[DRY RUN] Would move /Library/Caches/tool/blob.dat''),
      (INFO, ''Files moved to /Users/me/SystemDataCleanupBackup. Review before permanent deletion.''),
      (INFO, ''Running in DRY_RUN mode. No files were actually moved.'')])
   \<and> Makedirs ''/Users/me/SystemDataCleanupBackup/Library/Caches/Android Studio''
       \<notin> set (fst (the (cleanup_files (recording_os (\<lambda>d. True) (\<lambda>src dst. True))
            (example_env\<lparr>DRY_RUN := True\<rparr>) 4
            example_oracles [2, 0, 1] [''none'', ''all'', ''all'', ''Y''] [] example_batch)))"
  by (simp add: cleanup_files_def classify_all_def as_completed_def worker_pool_def
      classify_file_with_openai_def example_oracles_def example_batch_def example_record_def
      initial_agg_def aggregate_step_def get_program_name_def KNOWN_PROGRAMS_def lower_def
      REQUIRED_def TIERS_def upt_rec display_and_filter_files_def summary_ok_def strip_def
      is_space_def LEVELS_def example_env_def BACKUP_DIR_def rstrip_slash_def
      sublist_code Let_def fail_safe_def)

theorem dry_mode_witness:
  "cleanup_files (recording_os (\<lambda>d. False) (\<lambda>src dst. False)) (example_env\<lparr>DRY_RUN := True\<rparr>) 4
     example_oracles [2, 0, 1] [''none'', ''all'', ''all'', ''Y''] [Move ''a'' ''b''] example_batch
     \<noteq> None
   \<and> fst (the (cleanup_files (recording_os (\<lambda>d. False) (\<lambda>src dst. False))
        (example_env\<lparr>DRY_RUN := True\<rparr>) 4
        example_oracles [2, 0, 1] [''none'', ''all'', ''all'', ''Y''] [Move ''a'' ''b'']
        example_batch)) = [Move ''a'' ''b'']
   \<and> (\<exists>lines' r.
        move_to_backup (recording_os (\<lambda>d. True) (\<lambda>src dst. True))
          (example_env\<lparr>DRY_RUN := True\<rparr>) ''/Users/me/Library/Caches/app/x.db'' ([], []) =
        Some (([Makedirs ''/Users/me/SystemDataCleanupBackup/Library/Caches/app''], lines'), r))"
proof -
  have d: "DRY_RUN (example_env\<lparr>DRY_RUN := True\<rparr>)" by simp
  have r: "cleanup_files (recording_os (\<lambda>d. False) (\<lambda>src dst. False))
     (example_env\<lparr>DRY_RUN := True\<rparr>) 4
     example_oracles [2, 0, 1] [''none'', ''all'', ''all'', ''Y''] [Move ''a'' ''b''] example_batch
     \<noteq> None"
    by (simp add: cleanup_files_def classify_all_def as_completed_def worker_pool_def
      classify_file_with_openai_def example_oracles_def example_batch_def example_record_def
      initial_agg_def aggregate_step_def get_program_name_def KNOWN_PROGRAMS_def lower_def
      REQUIRED_def TIERS_def upt_rec display_and_filter_files_def summary_ok_def strip_def
      is_space_def LEVELS_def example_env_def BACKUP_DIR_def rstrip_slash_def
      sublist_code Let_def fail_safe_def)
  then obtain fs1 lines where s: "cleanup_files (recording_os (\<lambda>d. False) (\<lambda>src dst. False))
     (example_env\<lparr>DRY_RUN := True\<rparr>) 4
     example_oracles [2, 0, 1] [''none'', ''all'', ''all'', ''Y''] [Move ''a'' ''b''] example_batch
     = Some (fs1, lines)"
    by auto
  from dry_mode [OF d, THEN conjunct1, rule_format, OF s] s
  have a: "fst (the (cleanup_files (recording_os (\<lambda>d. False) (\<lambda>src dst. False))
        (example_env\<lparr>DRY_RUN := True\<rparr>) 4
        example_oracles [2, 0, 1] [''none'', ''all'', ''all'', ''Y''] [Move ''a'' ''b'']
        example_batch)) = [Move ''a'' ''b'']"
    by simp
  have rel: "relpath (cwd (example_env\<lparr>DRY_RUN := True\<rparr>)) ''/Users/me/Library/Caches/app/x.db''
      (expanduser (userhome (example_env\<lparr>DRY_RUN := True\<rparr>)) ''~'') =
      Some ''Library/Caches/app/x.db''"
    by (simp add: relpath_def abspath_def normpath_def example_env_def rstrip_slash_def)
  have dir: "dirname (join (BACKUP_DIR (example_env\<lparr>DRY_RUN := True\<rparr>))
      ''Library/Caches/app/x.db'') = ''/Users/me/SystemDataCleanupBackup/Library/Caches/app''"
    by (simp add: BACKUP_DIR_def example_env_def rstrip_slash_def join_def dirname_def)
  from dry_mode [OF d, THEN conjunct2, THEN conjunct2, rule_format, OF rel,
      where sys = "recording_os (\<lambda>d. True) (\<lambda>src dst. True)" and ?fs0.0 = "[]" and lines = "[]"]
  have b: "\<exists>lines' r.
        move_to_backup (recording_os (\<lambda>d. True) (\<lambda>src dst. True))
          (example_env\<lparr>DRY_RUN := True\<rparr>) ''/Users/me/Library/Caches/app/x.db'' ([], []) =
        Some (([Makedirs ''/Users/me/SystemDataCleanupBackup/Library/Caches/app''], lines'), r)"
    unfolding dir by (simp add: recording_os_def)
  from r a b show ?thesis by (intro conjI)
qed

section \<open>Fail-safe records are never relocated\<close>

lemma update_found_keys:
  "map_of al k = Some v \<Longrightarrow> map fst (AList.update k v' al) = map fst al"
  by (rule update_present_keys) (force dest: map_of_SomeD)

lemma aggregate_step_keys:
  "aggregate_step st r = Some st' \<Longrightarrow>
   map fst (program_files st') = map fst (program_files st)"
  by (cases r)
    (auto simp: aggregate_step_def Let_def update_found_keys split: option.splits if_splits)

lemma aggregate_keys:
  "aggregate st rs = Some st' \<Longrightarrow> map fst (program_files st') = map fst (program_files st)"
proof (induction rs arbitrary: st)
  case Nil
  then show ?case by simp
next
  case (Cons r rs)
  then show ?case
    by (auto split: option.splits dest: aggregate_step_keys)
qed

lemma classify_all_keys:
  "classify_all e n oracles order files = Some st \<Longrightarrow> distinct (map fst (program_files st))"
  unfolding classify_all_def
  by (drule aggregate_keys) (simp add: initial_agg_def KNOWN_PROGRAMS_def)

lemma bucket_of_entry:
  "distinct (map fst (program_files st)) \<Longrightarrow> (p, files) \<in> set (program_files st) \<Longrightarrow>
   bucket st p = files"
  by (simp add: bucket_def)

lemma files_in_levels_subset:
  "files_in_levels levels files = Some chosen \<Longrightarrow> set chosen \<subseteq> set files"
  by (drule files_in_levels_filter) auto

lemma select_files_subset:
  "select_files keep groups stdin = Some sel \<Longrightarrow>
   set (to_move sel) \<subseteq> (\<Union>g\<in>set groups. set (snd g))"
proof (induction groups arbitrary: stdin sel)
  case Nil
  then show ?case by auto
next
  case (Cons g groups)
  obtain program files where g: "g = (program, files)" by (cases g)
  show ?case
  proof (cases "files = [] \<or> program \<in> set keep")
    case True
    with Cons.prems g have "select_files keep groups stdin = Some sel" by simp
    from Cons.IH [OF this] show ?thesis by auto
  next
    case False
    with Cons.prems g obtain levels stdin' chosen sel' where
      c: "files_in_levels levels files = Some chosen" and
      s: "select_files keep groups stdin' = Some sel'" and
      sel: "sel = sel'\<lparr>to_move := chosen @ to_move sel',
                       levels_chosen := (program, levels) # levels_chosen sel'\<rparr>"
      by (auto split: option.splits)
    from Cons.IH [OF s] files_in_levels_subset [OF c] sel g show ?thesis
      by auto
  qed
qed

lemma display_subset:
  "display_and_filter_files groups stdin = Some sel \<Longrightarrow>
   set (to_move sel) \<subseteq> (\<Union>g\<in>set groups. set (snd g))"
  by (auto simp: display_and_filter_files_def Let_def
      split: if_splits option.splits dest!: select_files_subset)

lemma move_all_sources:
  "move_all (recording_os mk_ok mv_ok) e files (calls0, lines0) = Some (calls, lines) \<Longrightarrow>
   Move src dst \<in> set calls \<Longrightarrow> Move src dst \<in> set calls0 \<or> src \<in> path ` set files"
proof (induction files arbitrary: calls0 lines0)
  case Nil
  then show ?case by simp
next
  case (Cons m files)
  show ?case
  proof (cases "DRY_RUN e")
    case True
    with Cons.prems(1) have "move_all (recording_os mk_ok mv_ok) e files
        (calls0, lines0 @ [(INFO, ''[DRY RUN] Would move '' @ path m)]) = Some (calls, lines)"
      by simp
    from Cons.IH [OF this Cons.prems(2)] show ?thesis by auto
  next
    case False
    with Cons.prems(1) obtain calls1 lines1 r where
      m: "move_to_backup (recording_os mk_ok mv_ok) e (path m) (calls0, lines0) =
            Some ((calls1, lines1), r)" and
      rest: "move_all (recording_os mk_ok mv_ok) e files (calls1, lines1) = Some (calls, lines)"
      by (auto split: option.splits)
    from m obtain rel where
      "relpath (cwd e) (path m) (expanduser (userhome e) ''~'') = Some rel"
      by (auto simp: move_to_backup_def split: option.splits)
    from move_to_backup_calls [OF this, of mk_ok mv_ok calls0 lines0] m
    have "Move src dst \<in> set calls1 \<Longrightarrow> Move src dst \<in> set calls0 \<or> src = path m"
      by (auto split: if_splits)
    with Cons.IH [OF rest Cons.prems(2)] show ?thesis by auto
  qed
qed

lemma cleanup_files_sources:
  assumes "cleanup_files (recording_os mk_ok mv_ok) e n oracles order stdin [] files =
      Some (calls, lines)"
    and "Move src dst \<in> set calls"
  shows "\<exists>st p. classify_all e n oracles order files = Some st \<and> src \<in> path ` set (bucket st p)"
proof -
  from assms obtain st sel where
    st: "classify_all e n oracles order files = Some st" and
    sel: "display_and_filter_files (program_files st) stdin = Some sel" and
    mv: "\<exists>lines'. move_all (recording_os mk_ok mv_ok) e (to_move sel)
            ([], [(INFO, ''Proceeding with'')]) = Some (calls, lines')"
    by (auto simp: cleanup_files_def split: option.splits if_splits list.splits)
  from mv move_all_sources assms(2) have "src \<in> path ` set (to_move sel)"
    by fastforce
  with display_subset [OF sel] obtain p files where
    "(p, files) \<in> set (program_files st)" "src \<in> path ` set files"
    by fastforce
  with bucket_of_entry [OF classify_all_keys [OF st]] st show ?thesis
    by blast
qed

lemma stored_records:
  assumes "mset order = mset [0..<length files]"
    and "classify_all e n oracles order files = Some st"
  shows "worker_pool e n oracles files = map Some (returned_pairs n oracles files)"
    and "set (to_delete st) = attach ` {r \<in> set (returned_pairs n oracles files). retained r}"
    and "set (bucket st p) \<subseteq> set (to_delete st)"
proof -
  note rdy = classify_all_pool_ready [OF assms]
  show "worker_pool e n oracles files = map Some (returned_pairs n oracles files)"
    by (rule worker_pool_ready [OF rdy])
  have "set (as_completed order (returned_pairs n oracles files)) =
      set (returned_pairs n oracles files)"
    using assms(1) by (intro as_completed_set) (simp add: returned_pairs_length)
  moreover from classify_all_closed [OF assms(1) rdy, of oracles] assms(2)
  have "to_delete st =
      map attach (filter retained (as_completed order (returned_pairs n oracles files)))"
    by simp
  ultimately show td: "set (to_delete st) =
      attach ` {r \<in> set (returned_pairs n oracles files). retained r}"
    by simp
  show "set (bucket st p) \<subseteq> set (to_delete st)"
    unfolding td bucket_set [OF assms] by blast
qed

lemma returned_pair_index:
  "r \<in> set (returned_pairs n oracles files) \<longleftrightarrow>
     (\<exists>j<length files. r = returned_pairs n oracles files ! j)"
  by (auto simp: in_set_conv_nth returned_pairs_length)

lemma failed_not_retained:
  assumes "i < length files" and "invocation_fails (oracles i)"
  shows "returned_pairs n oracles files ! i =
      (files ! i, snd (classify_attempts (i mod n + 1) (oracles i) [0..<3]))"
    and "map_of (snd (returned_pairs n oracles files ! i)) ''important'' = Some (JBool True)"
    and "\<not> retained (returned_pairs n oracles files ! i)"
proof -
  show "returned_pairs n oracles files ! i =
      (files ! i, snd (classify_attempts (i mod n + 1) (oracles i) [0..<3]))"
    by (rule returned_pairs_nth [OF assms(1)])
  from failing_pair [where oracles = oracles and i = i and files = files and n = n, OF assms]
  show "map_of (snd (returned_pairs n oracles files ! i)) ''important'' = Some (JBool True)"
    by (simp add: is_fail_safe_def)
  then show "\<not> retained (returned_pairs n oracles files ! i)"
    by (simp add: retained_def)
qed

lemma stored_record_index:
  assumes "mset order = mset [0..<length files]"
    and "classify_all e n oracles order files = Some st"
    and "i < length files" and "invocation_fails (oracles i)"
  shows "m \<in> set (to_delete st) \<longleftrightarrow>
     (\<exists>j<length files. j \<noteq> i
        \<and> (\<exists>c imp. worker_pool e n oracles files ! j = Some (files ! j, c)
              \<and> map_of c ''important'' = Some imp \<and> \<not> truthy imp
              \<and> m = attach (files ! j, c)))"
proof -
  note s = stored_records [OF assms(1,2)]
  note f = failed_not_retained [where oracles = oracles and i = i and files = files and n = n,
      OF assms(3,4)]
  have pair: "worker_pool e n oracles files ! j =
      Some (files ! j, snd (returned_pairs n oracles files ! j))
      \<and> returned_pairs n oracles files ! j =
          (files ! j, snd (returned_pairs n oracles files ! j))"
    if "j < length files" for j
    using that by (simp add: s(1) returned_pairs_length returned_pairs_nth)
  show ?thesis
  proof
    assume "m \<in> set (to_delete st)"
    then obtain r where r: "r \<in> set (returned_pairs n oracles files)" "retained r"
      "m = attach r"
      unfolding s(2) by blast
    from r(1) obtain j where j: "j < length files" "r = returned_pairs n oracles files ! j"
      unfolding returned_pair_index by blast
    from r(2) j(2) f(3) have ne: "j \<noteq> i"
      by auto
    from r(2) obtain imp where imp: "map_of (snd r) ''important'' = Some imp" "\<not> truthy imp"
      unfolding retained_iff by blast
    from pair [OF j(1)] j(2) have
      wp: "worker_pool e n oracles files ! j = Some (files ! j, snd r)" and
      rr: "r = (files ! j, snd r)"
      by simp_all
    from r(3) rr have "m = attach (files ! j, snd r)"
      by simp
    with j(1) ne wp imp show "\<exists>j<length files. j \<noteq> i
        \<and> (\<exists>c imp. worker_pool e n oracles files ! j = Some (files ! j, c)
              \<and> map_of c ''important'' = Some imp \<and> \<not> truthy imp
              \<and> m = attach (files ! j, c))"
      by blast
  next
    assume "\<exists>j<length files. j \<noteq> i
        \<and> (\<exists>c imp. worker_pool e n oracles files ! j = Some (files ! j, c)
              \<and> map_of c ''important'' = Some imp \<and> \<not> truthy imp
              \<and> m = attach (files ! j, c))"
    then obtain j c imp where j: "j < length files" and
      wp: "worker_pool e n oracles files ! j = Some (files ! j, c)" and
      imp: "map_of c ''important'' = Some imp" "\<not> truthy imp" and
      m: "m = attach (files ! j, c)"
      by blast
    from pair [OF j] wp have eq: "returned_pairs n oracles files ! j = (files ! j, c)"
      by simp
    with imp have "retained (returned_pairs n oracles files ! j)"
      unfolding retained_iff by simp
    moreover from j have "returned_pairs n oracles files ! j \<in> set (returned_pairs n oracles files)"
      unfolding returned_pair_index by blast
    ultimately show "m \<in> set (to_delete st)"
      unfolding s(2) m eq [symmetric] by blast
  qed
qed

lemma exception_stops_run:
  assumes "mset order = mset [0..<length files]" and "i < length files"
    and "\<not> ready e (i mod n + 1)"
  shows "worker_pool e n oracles files ! i = None"
    and "classify_all e n oracles order files = None"
    and "cleanup_files sys e n oracles order stdin fs0 files = None"
proof -
  show w: "worker_pool e n oracles files ! i = None"
    using assms(2,3) by (simp add: worker_pool_nth)
  have "worker_pool e n oracles files ! i \<in> set (worker_pool e n oracles files)"
    using assms(2) by (simp add: worker_pool_length)
  with w have "None \<in> set (as_completed order (worker_pool e n oracles files))"
    using assms(1) by (simp add: as_completed_set worker_pool_length)
  then show c: "classify_all e n oracles order files = None"
    unfolding classify_all_def using aggregate_no_exception
    by (cases "aggregate initial_agg (as_completed order (worker_pool e n oracles files))") auto
  show "cleanup_files sys e n oracles order stdin fs0 files = None"
    by (simp add: cleanup_files_def c)
qed

theorem fail_safe_counterexample:
  "invocation_fails (example_oracles 1)
   \<and> classify_file_with_openai (example_env\<lparr>OPENAI_API_KEY := None\<rparr>) (example_batch ! 1) 2
        (example_oracles 1) = None
   \<and> (\<exists>st. classify_all example_env 4 null_oracles [0] [example_record] = Some st
         \<and> to_delete st = [example_record\<lparr>importance := Some (JStr ''Low''),
                                          reason := Some (JStr ''log'')\<rparr>])
   \<and> JNull \<noteq> JBool False
   \<and> SCAN_DIRS (example_env\<lparr>userhome := ''/''\<rparr>) ! 0 = ''/Library/Caches''
   \<and> SCAN_DIRS (example_env\<lparr>userhome := ''/''\<rparr>) ! 1 = ''/Library/Caches''
   \<and> path ([example_batch ! 2, example_batch ! 2] ! 1) = ''/Library/Caches/tool/blob.dat''
   \<and> (\<exists>calls lines.
         cleanup_files (recording_os (\<lambda>d. True) (\<lambda>src dst. True)) (example_env\<lparr>userhome := ''/''\<rparr>)
           4 example_oracles [0, 1] [''none'', ''all'', ''y''] []
           [example_batch ! 2, example_batch ! 2] = Some (calls, lines)
         \<and> Move ''/Library/Caches/tool/blob.dat''
              ''/SystemDataCleanupBackup/Library/Caches/tool/blob.dat'' \<in> set calls)"
  by (simp add: cleanup_files_def classify_all_def as_completed_def worker_pool_def
      classify_file_with_openai_def example_oracles_def null_oracles_def example_batch_def
      example_record_def invocation_fails_def SCAN_DIRS_def
      initial_agg_def aggregate_step_def get_program_name_def KNOWN_PROGRAMS_def lower_def
      REQUIRED_def TIERS_def upt_rec display_and_filter_files_def summary_ok_def strip_def
      is_space_def LEVELS_def move_to_backup_def relpath_def abspath_def normpath_def
      example_env_def BACKUP_DIR_def rstrip_slash_def join_def dirname_def recording_os_def
      sublist_code Let_def fail_safe_def)

text \<open>
  C4, for invocations that can set up their logger and client, and with retention as the
  code decides it.  Let record \<open>i\<close> of a batch be one whose invocation errors at a request
  or at parsing, or exhausts its retries.  If the invocation can set up its logger and
  client, it returns the record with a classification that has \<open>important = True\<close>, and this
  pair does not pass the aggregator's test; if it cannot, it raises, and the run ends with
  that exception.  Whatever the completion order, the records that the aggregator stores
  (in \<^verbatim>\<open>to_delete\<close>, and in the buckets, which hold nothing else) are exactly the records
  whose own invocation returned a classification with a falsy \<open>important\<close> field, each with
  its tier and reason attached, and none of them stems from invocation \<open>i\<close>.  Whatever
  the operator answers and whether or not the file system calls succeed, every move that
  \<^verbatim>\<open>cleanup_files\<close> makes has as its source the path of a record other than \<open>i\<close> whose own
  invocation returned a falsy \<open>important\<close> field.  Hence the path of record \<open>i\<close> is stored
  exactly when another record of the batch has the same path and was classified with a
  falsy \<open>important\<close> field; when no other record has that path, it is in no bucket and not in
  \<^verbatim>\<open>to_delete\<close>, and no move of it is ever made.
\<close>

theorem fail_safe_never_relocated:
  assumes "mset order = mset [0..<length files]" and "0 < n"
    and "i < length files" and "invocation_fails (oracles i)"
  shows "(if ready e (i mod n + 1)
          then \<exists>c. worker_pool e n oracles files ! i = Some (files ! i, c)
                 \<and> map_of c ''important'' = Some (JBool True) \<and> \<not> retained (files ! i, c)
          else worker_pool e n oracles files ! i = None
             \<and> cleanup_files (recording_os mk_ok mv_ok) e n oracles order stdin [] files = None)
     \<and> (\<forall>st. classify_all e n oracles order files = Some st \<longrightarrow>
           (\<forall>m. m \<in> set (to_delete st) \<longleftrightarrow>
              (\<exists>j<length files. j \<noteq> i
                 \<and> (\<exists>c imp. worker_pool e n oracles files ! j = Some (files ! j, c)
                       \<and> map_of c ''important'' = Some imp \<and> \<not> truthy imp
                       \<and> m = attach (files ! j, c))))
         \<and> (\<forall>program. set (bucket st program) \<subseteq> set (to_delete st))
         \<and> (path (files ! i) \<in> path ` set (to_delete st) \<longleftrightarrow>
              (\<exists>j<length files. j \<noteq> i \<and> path (files ! j) = path (files ! i)
                 \<and> (\<exists>c imp. worker_pool e n oracles files ! j = Some (files ! j, c)
                       \<and> map_of c ''important'' = Some imp \<and> \<not> truthy imp))))
     \<and> (\<forall>calls lines src dst.
           cleanup_files (recording_os mk_ok mv_ok) e n oracles order stdin [] files =
             Some (calls, lines) \<and> Move src dst \<in> set calls \<longrightarrow>
           (\<exists>j<length files. j \<noteq> i \<and> src = path (files ! j)
              \<and> (\<exists>c imp. worker_pool e n oracles files ! j = Some (files ! j, c)
                    \<and> map_of c ''important'' = Some imp \<and> \<not> truthy imp)))
     \<and> ((\<forall>j<length files. j \<noteq> i \<longrightarrow> path (files ! j) \<noteq> path (files ! i)) \<longrightarrow>
          (\<forall>st. classify_all e n oracles order files = Some st \<longrightarrow>
             path (files ! i) \<notin> path ` set (to_delete st)
             \<and> (\<forall>program. path (files ! i) \<notin> path ` set (bucket st program)))
          \<and> (\<forall>calls lines dst.
                cleanup_files (recording_os mk_ok mv_ok) e n oracles order stdin [] files =
                  Some (calls, lines) \<longrightarrow> Move (path (files ! i)) dst \<notin> set calls))"
proof -
  note f = failed_not_retained [where oracles = oracles and i = i and files = files and n = n,
      OF assms(3,4)]
  have first: "if ready e (i mod n + 1)
      then \<exists>c. worker_pool e n oracles files ! i = Some (files ! i, c)
             \<and> map_of c ''important'' = Some (JBool True) \<and> \<not> retained (files ! i, c)
      else worker_pool e n oracles files ! i = None
         \<and> cleanup_files (recording_os mk_ok mv_ok) e n oracles order stdin [] files = None"
  proof (cases "ready e (i mod n + 1)")
    case True
    let ?c = "snd (classify_attempts (i mod n + 1) (oracles i) [0..<3])"
    from True have "worker_pool e n oracles files ! i = Some (files ! i, ?c)"
      by (simp add: worker_pool_nth [OF assms(3)] f(1))
    moreover from f(2) have "map_of ?c ''important'' = Some (JBool True)"
      by (simp add: f(1))
    moreover from f(3) have "\<not> retained (files ! i, ?c)"
      by (simp add: f(1))
    ultimately show ?thesis
      using True by auto
  next
    case False
    with exception_stops_run [OF assms(1,3) False] show ?thesis
      by simp
  qed
  have stored: "m \<in> set (to_delete st) \<longleftrightarrow>
      (\<exists>j<length files. j \<noteq> i
         \<and> (\<exists>c imp. worker_pool e n oracles files ! j = Some (files ! j, c)
               \<and> map_of c ''important'' = Some imp \<and> \<not> truthy imp
               \<and> m = attach (files ! j, c)))"
    if "classify_all e n oracles order files = Some st" for st m
    by (rule stored_record_index [OF assms(1) that assms(3,4)])
  have buckets: "set (bucket st program) \<subseteq> set (to_delete st)"
    if "classify_all e n oracles order files = Some st" for st program
    by (rule stored_records(3) [OF assms(1) that])
  have same_path: "p \<in> path ` set (to_delete st) \<longleftrightarrow>
      (\<exists>j<length files. j \<noteq> i \<and> path (files ! j) = p
         \<and> (\<exists>c imp. worker_pool e n oracles files ! j = Some (files ! j, c)
               \<and> map_of c ''important'' = Some imp \<and> \<not> truthy imp))"
    if st: "classify_all e n oracles order files = Some st" for st p
  proof
    assume "p \<in> path ` set (to_delete st)"
    then obtain m where m: "m \<in> set (to_delete st)" "p = path m"
      by blast
    from m(1) obtain j c imp where "j < length files" "j \<noteq> i"
      "worker_pool e n oracles files ! j = Some (files ! j, c)"
      "map_of c ''important'' = Some imp" "\<not> truthy imp" "m = attach (files ! j, c)"
      unfolding stored [OF st] by blast
    moreover from this(6) m(2) have "path (files ! j) = p"
      by (simp add: attach_path)
    ultimately show "\<exists>j<length files. j \<noteq> i \<and> path (files ! j) = p
         \<and> (\<exists>c imp. worker_pool e n oracles files ! j = Some (files ! j, c)
               \<and> map_of c ''important'' = Some imp \<and> \<not> truthy imp)"
      by blast
  next
    assume "\<exists>j<length files. j \<noteq> i \<and> path (files ! j) = p
         \<and> (\<exists>c imp. worker_pool e n oracles files ! j = Some (files ! j, c)
               \<and> map_of c ''important'' = Some imp \<and> \<not> truthy imp)"
    then obtain j c imp where j: "j < length files" "j \<noteq> i" "path (files ! j) = p"
      "worker_pool e n oracles files ! j = Some (files ! j, c)"
      "map_of c ''important'' = Some imp" "\<not> truthy imp"
      by blast
    then have "attach (files ! j, c) \<in> set (to_delete st)"
      unfolding stored [OF st] by blast
    moreover have "path (attach (files ! j, c)) = p"
      using j(3) by (simp add: attach_path)
    ultimately show "p \<in> path ` set (to_delete st)"
      by force
  qed
  have moves: "\<exists>j<length files. j \<noteq> i \<and> src = path (files ! j)
      \<and> (\<exists>c imp. worker_pool e n oracles files ! j = Some (files ! j, c)
            \<and> map_of c ''important'' = Some imp \<and> \<not> truthy imp)"
    if run: "cleanup_files (recording_os mk_ok mv_ok) e n oracles order stdin [] files =
          Some (calls, lines)" and mv: "Move src dst \<in> set calls" for calls lines src dst
  proof -
    from cleanup_files_sources [OF run mv] obtain st p where
      st: "classify_all e n oracles order files = Some st" and
      src: "src \<in> path ` set (bucket st p)"
      by blast
    from src buckets [OF st, of p] have "src \<in> path ` set (to_delete st)"
      by blast
    then show ?thesis
      unfolding same_path [OF st] by blast
  qed
  have second: "\<forall>st. classify_all e n oracles order files = Some st \<longrightarrow>
      (\<forall>m. m \<in> set (to_delete st) \<longleftrightarrow>
         (\<exists>j<length files. j \<noteq> i
            \<and> (\<exists>c imp. worker_pool e n oracles files ! j = Some (files ! j, c)
                  \<and> map_of c ''important'' = Some imp \<and> \<not> truthy imp
                  \<and> m = attach (files ! j, c))))
      \<and> (\<forall>program. set (bucket st program) \<subseteq> set (to_delete st))
      \<and> (path (files ! i) \<in> path ` set (to_delete st) \<longleftrightarrow>
           (\<exists>j<length files. j \<noteq> i \<and> path (files ! j) = path (files ! i)
              \<and> (\<exists>c imp. worker_pool e n oracles files ! j = Some (files ! j, c)
                    \<and> map_of c ''important'' = Some imp \<and> \<not> truthy imp)))"
    using stored buckets same_path by (intro allI impI conjI)
  have third: "\<forall>calls lines src dst.
      cleanup_files (recording_os mk_ok mv_ok) e n oracles order stdin [] files =
        Some (calls, lines) \<and> Move src dst \<in> set calls \<longrightarrow>
      (\<exists>j<length files. j \<noteq> i \<and> src = path (files ! j)
         \<and> (\<exists>c imp. worker_pool e n oracles files ! j = Some (files ! j, c)
               \<and> map_of c ''important'' = Some imp \<and> \<not> truthy imp))"
    using moves by (intro allI impI) (elim conjE)
  have fourth: "(\<forall>j<length files. j \<noteq> i \<longrightarrow> path (files ! j) \<noteq> path (files ! i)) \<longrightarrow>
      (\<forall>st. classify_all e n oracles order files = Some st \<longrightarrow>
         path (files ! i) \<notin> path ` set (to_delete st)
         \<and> (\<forall>program. path (files ! i) \<notin> path ` set (bucket st program)))
      \<and> (\<forall>calls lines dst.
            cleanup_files (recording_os mk_ok mv_ok) e n oracles order stdin [] files =
              Some (calls, lines) \<longrightarrow> Move (path (files ! i)) dst \<notin> set calls)"
  proof (intro impI conjI allI)
    assume u: "\<forall>j<length files. j \<noteq> i \<longrightarrow> path (files ! j) \<noteq> path (files ! i)"
    {
      fix st assume st: "classify_all e n oracles order files = Some st"
      show a: "path (files ! i) \<notin> path ` set (to_delete st)"
        unfolding same_path [OF st] using u by blast
      show "path (files ! i) \<notin> path ` set (bucket st program)" for program
        using a buckets [OF st, of program] by blast
    }
    fix calls lines dst
    assume run: "cleanup_files (recording_os mk_ok mv_ok) e n oracles order stdin [] files =
        Some (calls, lines)"
    show "Move (path (files ! i)) dst \<notin> set calls"
    proof
      assume "Move (path (files ! i)) dst \<in> set calls"
      from moves [OF run this] u show False
        by metis
    qed
  qed
  from first second third fourth show ?thesis
    by (intro conjI)
qed

theorem fail_safe_never_relocated_witness:
  "(\<exists>c. worker_pool example_env 4 example_oracles example_batch ! 1 = Some (example_batch ! 1, c)
       \<and> map_of c ''important'' = Some (JBool True) \<and> \<not> retained (example_batch ! 1, c))
   \<and> (\<exists>calls lines.
        cleanup_files (recording_os (\<lambda>d. True) (\<lambda>src dst. True)) example_env 4 example_oracles
          [2, 0, 1] [''none'', ''all'', ''all'', ''Y''] [] example_batch = Some (calls, lines)
        \<and> Move ''/Library/Caches/tool/blob.dat''
             ''/Users/me/SystemDataCleanupBackup/../../Library/Caches/tool/blob.dat'' \<in> set calls
        \<and> Move (path (example_batch ! 1)) ''/Users/me/SystemDataCleanupBackup/Library/Logs/sync.log''
            \<notin> set calls)
   \<and> worker_pool (example_env\<lparr>OPENAI_API_KEY := None\<rparr>) 4 example_oracles example_batch ! 1 = None
   \<and> cleanup_files (recording_os (\<lambda>d. True) (\<lambda>src dst. True))
        (example_env\<lparr>OPENAI_API_KEY := None\<rparr>) 4 example_oracles
        [2, 0, 1] [''none'', ''all'', ''all'', ''Y''] [] example_batch = None"
proof -
  have len: "length example_batch = 3"
    by (simp add: example_batch_def)
  have perm: "mset [2, 0, 1] = mset [0..<length example_batch]"
    by (simp add: len upt_rec)
  have n: "(0::nat) < 4" by simp
  have i: "1 < length example_batch" by (simp add: len)
  have fails: "invocation_fails (example_oracles 1)"
    by (simp add: invocation_fails_def example_oracles_def upt_rec)
  have rdy: "ready example_env (1 mod 4 + 1)"
    and nrdy: "\<not> ready (example_env\<lparr>OPENAI_API_KEY := None\<rparr>) (1 mod 4 + 1)"
    by (simp_all add: ready_def example_env_def)
  have u: "\<forall>j<length example_batch. j \<noteq> 1 \<longrightarrow>
      path (example_batch ! j) \<noteq> path (example_batch ! 1)"
    by (simp add: len example_batch_def less_Suc_eq numeral_3_eq_3)
  note t = fail_safe_never_relocated [where order = "[2, 0, 1]" and files = example_batch
      and n = 4 and i = 1 and oracles = example_oracles
      and mk_ok = "\<lambda>d. True" and mv_ok = "\<lambda>src dst. True" and e = example_env
      and stdin = "[''none'', ''all'', ''all'', ''Y'']", OF perm n i fails]
  note t' = fail_safe_never_relocated [where order = "[2, 0, 1]" and files = example_batch
      and n = 4 and i = 1 and oracles = example_oracles
      and mk_ok = "\<lambda>d. True" and mv_ok = "\<lambda>src dst. True"
      and e = "example_env\<lparr>OPENAI_API_KEY := None\<rparr>"
      and stdin = "[''none'', ''all'', ''all'', ''Y'']", OF perm n i fails]
  from t [THEN conjunct1] rdy
  have a: "\<exists>c. worker_pool example_env 4 example_oracles example_batch ! 1 =
        Some (example_batch ! 1, c)
      \<and> map_of c ''important'' = Some (JBool True) \<and> \<not> retained (example_batch ! 1, c)"
    by (simp only: if_True)
  from example_run obtain calls lines where
    run: "cleanup_files (recording_os (\<lambda>d. True) (\<lambda>src dst. True)) example_env 4 example_oracles
          [2, 0, 1] [''none'', ''all'', ''all'', ''Y''] [] example_batch = Some (calls, lines)" and
    mv: "Move ''/Library/Caches/tool/blob.dat''
          ''/Users/me/SystemDataCleanupBackup/../../Library/Caches/tool/blob.dat'' \<in> set calls"
    by blast
  from t [THEN conjunct2, THEN conjunct2, THEN conjunct2, THEN mp, OF u, THEN conjunct2,
      rule_format, OF run]
  have "Move (path (example_batch ! 1)) ''/Users/me/SystemDataCleanupBackup/Library/Logs/sync.log''
      \<notin> set calls" .
  with run mv have b: "\<exists>calls lines.
        cleanup_files (recording_os (\<lambda>d. True) (\<lambda>src dst. True)) example_env 4 example_oracles
          [2, 0, 1] [''none'', ''all'', ''all'', ''Y''] [] example_batch = Some (calls, lines)
        \<and> Move ''/Library/Caches/tool/blob.dat''
             ''/Users/me/SystemDataCleanupBackup/../../Library/Caches/tool/blob.dat'' \<in> set calls
        \<and> Move (path (example_batch ! 1)) ''/Users/me/SystemDataCleanupBackup/Library/Logs/sync.log''
            \<notin> set calls"
    by blast
  from t' [THEN conjunct1] nrdy
  have c: "worker_pool (example_env\<lparr>OPENAI_API_KEY := None\<rparr>) 4 example_oracles example_batch ! 1
        = None
      \<and> cleanup_files (recording_os (\<lambda>d. True) (\<lambda>src dst. True))
          (example_env\<lparr>OPENAI_API_KEY := None\<rparr>) 4 example_oracles
          [2, 0, 1] [''none'', ''all'', ''all'', ''Y''] [] example_batch = None"
    by (simp only: if_False)
  from a b c show ?thesis by (intro conjI) (elim conjE, assumption)+
qed
end
